theory Spec2Isabelle
  imports Complex_Main "HOL-Library.Word"
begin

section \<open>Pixel buffers and the 2D canvas operations used by the compositor\<close>

text \<open>
  A pixel is one RGBA quadruple of a \<^verbatim>\<open>Uint8ClampedArray\<close>. An \<open>image\<close> stands for every
  full pixel grid of the program: an \<^verbatim>\<open>ImageData\<close>, an \<^verbatim>\<open>ImageBitmap\<close> and the backing
  store of an \<^verbatim>\<open>HTMLCanvasElement\<close>. Coordinates, sizes and frame indices are the
  non-negative integers a decoded GIF carries.
\<close>

datatype pixel = RGBA (red: "8 word") (green: "8 word") (blue: "8 word") (alpha: "8 word")

definition transparent :: pixel where
  "transparent = RGBA 0 0 0 0"

record image =
  img_width :: nat
  img_height :: nat
  img_rows :: "pixel list list"

datatype js_error = IndexSizeError | InvalidStateError | TypeError | CouldNotParse

text \<open>The blend of a source pixel over a destination pixel (\<^verbatim>\<open>drawImage\<close> with the default
  source-over operator) is computed by the browser, not by this repository: every
  drawing function below takes it as the parameter \<open>blend\<close>.\<close>

type_synonym blend = "pixel \<Rightarrow> pixel \<Rightarrow> pixel"

text \<open>A JavaScript number is a double: a rational number, and the result of an arithmetic
  operation is the exact result rounded to the nearest double. The rounding is done by the
  machine, not by this repository: the functions that compute with numbers that need not be
  whole take it as the parameter \<open>rnd\<close>, applied to each exact result.\<close>

type_synonym rounding = "rat \<Rightarrow> rat"

definition mkImage :: "nat \<Rightarrow> nat \<Rightarrow> (nat \<Rightarrow> nat \<Rightarrow> pixel) \<Rightarrow> image" where
  "mkImage w h f =
     \<lparr>img_width = w, img_height = h, img_rows = map (\<lambda>y. map (\<lambda>x. f x y) [0..<w]) [0..<h]\<rparr>"

definition pixelAt :: "image \<Rightarrow> nat \<Rightarrow> nat \<Rightarrow> pixel" where
  "pixelAt c x y =
     (if x < img_width c \<and> y < img_height c \<and> y < length (img_rows c) \<and> x < length (img_rows c ! y)
      then img_rows c ! y ! x else transparent)"

definition wf_image :: "image \<Rightarrow> bool" where
  "wf_image c \<longleftrightarrow>
     length (img_rows c) = img_height c \<and> list_all (\<lambda>r. length r = img_width c) (img_rows c)"

text \<open>\<^verbatim>\<open>document.createElement('canvas')\<close> followed by setting \<^verbatim>\<open>width\<close> and \<^verbatim>\<open>height\<close>:
  a transparent-black bitmap.\<close>

definition createCanvas :: "nat \<Rightarrow> nat \<Rightarrow> image" where
  "createCanvas w h = mkImage w h (\<lambda>x y. transparent)"

definition inRect :: "nat \<Rightarrow> nat \<Rightarrow> nat \<Rightarrow> nat \<Rightarrow> nat \<Rightarrow> nat \<Rightarrow> bool" where
  "inRect x y w h px py \<longleftrightarrow> x \<le> px \<and> px < x + w \<and> y \<le> py \<and> py < y + h"

text \<open>\<^verbatim>\<open>ctx.clearRect(x, y, w, h)\<close>: the pixels of the rectangle that lie on the canvas become
  transparent black.\<close>

definition clearRect :: "nat \<Rightarrow> nat \<Rightarrow> nat \<Rightarrow> nat \<Rightarrow> image \<Rightarrow> image" where
  "clearRect x y w h c =
     mkImage (img_width c) (img_height c)
       (\<lambda>px py. if inRect x y w h px py then transparent else pixelAt c px py)"

text \<open>\<^verbatim>\<open>ctx.getImageData(sx, sy, sw, sh)\<close>: a copy of the rectangle, transparent black outside
  the canvas; a zero width or height raises \<^verbatim>\<open>IndexSizeError\<close>.\<close>

definition getImageData :: "nat \<Rightarrow> nat \<Rightarrow> nat \<Rightarrow> nat \<Rightarrow> image \<Rightarrow> js_error + image" where
  "getImageData sx sy sw sh c =
     (if sw = 0 \<or> sh = 0 then Inl IndexSizeError
      else Inr (mkImage sw sh (\<lambda>x y. pixelAt c (sx + x) (sy + y))))"

text \<open>\<^verbatim>\<open>ctx.putImageData(d, dx, dy)\<close>: the pixels of \<open>d\<close> replace those of the canvas, without
  blending.\<close>

definition putImageData :: "image \<Rightarrow> nat \<Rightarrow> nat \<Rightarrow> image \<Rightarrow> image" where
  "putImageData d dx dy c =
     mkImage (img_width c) (img_height c)
       (\<lambda>px py. if inRect dx dy (img_width d) (img_height d) px py
                 then pixelAt d (px - dx) (py - dy) else pixelAt c px py)"

text \<open>\<^verbatim>\<open>ctx.drawImage(b, dx, dy)\<close>: the bitmap is blended over the canvas at \<open>(dx, dy)\<close>.\<close>

definition drawImage :: "blend \<Rightarrow> image \<Rightarrow> nat \<Rightarrow> nat \<Rightarrow> image \<Rightarrow> image" where
  "drawImage bl b dx dy c =
     mkImage (img_width c) (img_height c)
       (\<lambda>px py. if inRect dx dy (img_width b) (img_height b) px py
                 then bl (pixelAt b (px - dx) (py - dy)) (pixelAt c px py) else pixelAt c px py)"

text \<open>\<^verbatim>\<open>ctx.drawImage(src, sx, sy, sw, sh, 0, 0, sw, sh)\<close>, the unscaled nine-argument form
  used for cropping: the source rectangle is clipped to the source image, and only the
  matching part of the destination is drawn.\<close>

definition drawImageCrop :: "blend \<Rightarrow> image \<Rightarrow> nat \<Rightarrow> nat \<Rightarrow> nat \<Rightarrow> nat \<Rightarrow> image \<Rightarrow> image" where
  "drawImageCrop bl src sx sy sw sh c =
     mkImage (img_width c) (img_height c)
       (\<lambda>px py. if px < sw \<and> py < sh \<and> sx + px < img_width src \<and> sy + py < img_height src
                 then bl (pixelAt src (sx + px) (sy + py)) (pixelAt c px py) else pixelAt c px py)"

text \<open>\<^verbatim>\<open>createImageBitmap(canvas)\<close>: a frozen copy; a canvas without pixels raises
  \<^verbatim>\<open>InvalidStateError\<close>.\<close>

definition createImageBitmap :: "image \<Rightarrow> js_error + image" where
  "createImageBitmap c =
     (if img_width c = 0 \<or> img_height c = 0 then Inl InvalidStateError
      else Inr (mkImage (img_width c) (img_height c) (pixelAt c)))"

text \<open>\<^verbatim>\<open>new ImageData(new Uint8ClampedArray(patch), w, h)\<close>: the patch is read row by row;
  the constructor raises when a side is zero or the data does not fill the rectangle.\<close>

definition newImageData :: "pixel list \<Rightarrow> nat \<Rightarrow> nat \<Rightarrow> js_error + image" where
  "newImageData p w h =
     (if w = 0 \<or> h = 0 then Inl IndexSizeError
      else if length p \<noteq> w * h then Inl IndexSizeError
      else Inr (mkImage w h (\<lambda>x y. p ! (y * w + x))))"

section \<open>Decoded frames (gifuct-js \<^verbatim>\<open>ParsedFrame\<close>) and \<^verbatim>\<open>GifData\<close>\<close>

record dims =
  dims_left :: nat
  dims_top :: nat
  dims_width :: nat
  dims_height :: nat

record parsedFrame =
  frame_dims :: dims
  frame_delay :: nat
  frame_disposalType :: nat
  frame_patch :: "pixel list"

record gifData =
  gif_frames :: "parsedFrame list"
  gif_width :: nat
  gif_height :: nat
  gif_canvas :: image

text \<open>The pre-draw block that \<^verbatim>\<open>generateCompositedFrames\<close>, \<^verbatim>\<open>cropGif\<close>, \<^verbatim>\<open>generateThumbnails\<close>
  and \<^verbatim>\<open>renderToFrame\<close> each contain verbatim:
  \<^verbatim>\<open>if (i > 0) { prevFrame = frames[i - 1];
       if (prevFrame.disposalType === 2) clearRect(prevFrame.dims ...)
       else if (prevFrame.disposalType === 3 && previousFrameData) putImageData(previousFrameData, 0, 0) }\<close>
  Reading \<^verbatim>\<open>disposalType\<close> of a frame that does not exist raises \<^verbatim>\<open>TypeError\<close>.\<close>

definition disposePrevious :: "parsedFrame list \<Rightarrow> nat \<Rightarrow> image option \<Rightarrow> image \<Rightarrow> js_error + image" where
  "disposePrevious frames i previousFrameData c =
     (if i > 0 then
        (if i - 1 < length frames then
           (let prevFrame = frames ! (i - 1) in
            if frame_disposalType prevFrame = 2 then
              Inr (clearRect (dims_left (frame_dims prevFrame)) (dims_top (frame_dims prevFrame))
                     (dims_width (frame_dims prevFrame)) (dims_height (frame_dims prevFrame)) c)
            else if frame_disposalType prevFrame = 3 \<and> previousFrameData \<noteq> None then
              Inr (putImageData (the previousFrameData) 0 0 c)
            else Inr c)
         else Inl TypeError)
      else Inr c)"

text \<open>\<^verbatim>\<open>if (frame.disposalType === 3) previousFrameData = ctx.getImageData(0, 0, w, h)\<close>.\<close>

definition saveState :: "parsedFrame \<Rightarrow> nat \<Rightarrow> nat \<Rightarrow> image option \<Rightarrow> image \<Rightarrow> js_error + image option" where
  "saveState frame w h previousFrameData c =
     (if frame_disposalType frame = 3 then
        (case getImageData 0 0 w h c of Inl e \<Rightarrow> Inl e | Inr d \<Rightarrow> Inr (Some d))
      else Inr previousFrameData)"

text \<open>The patch of a frame as a bitmap, and its drawing at the frame's offset.\<close>

definition drawPatch :: "blend \<Rightarrow> parsedFrame \<Rightarrow> image \<Rightarrow> js_error + image" where
  "drawPatch bl frame c =
     (case newImageData (frame_patch frame) (dims_width (frame_dims frame)) (dims_height (frame_dims frame)) of
        Inl e \<Rightarrow> Inl e
      | Inr patchData \<Rightarrow>
          Inr (drawImage bl patchData (dims_left (frame_dims frame)) (dims_top (frame_dims frame)) c))"

section \<open>\<^verbatim>\<open>generateCompositedFrames\<close> (gif-processor.ts)\<close>

function generateCompositedFrames_loop ::
  "blend \<Rightarrow> parsedFrame list \<Rightarrow> nat \<Rightarrow> nat \<Rightarrow> nat \<Rightarrow> image \<Rightarrow> image option \<Rightarrow> image list
     \<Rightarrow> js_error + image list" where
  "generateCompositedFrames_loop bl frames w h i tempCanvas previousFrameData compositedFrames =
     (if i < length frames then
        (let frame = frames ! i in
         case disposePrevious frames i previousFrameData tempCanvas of
           Inl e \<Rightarrow> Inl e
         | Inr c1 \<Rightarrow>
             (case saveState frame w h previousFrameData c1 of
                Inl e \<Rightarrow> Inl e
              | Inr previousFrameData' \<Rightarrow>
                  (case drawPatch bl frame c1 of
                     Inl e \<Rightarrow> Inl e
                   | Inr c2 \<Rightarrow>
                       (case createImageBitmap c2 of
                          Inl e \<Rightarrow> Inl e
                        | Inr frameBitmap \<Rightarrow>
                            generateCompositedFrames_loop bl frames w h (i + 1) c2 previousFrameData'
                              (compositedFrames @ [frameBitmap])))))
      else Inr compositedFrames)"
  by pat_completeness auto
termination
  by (relation "measure (\<lambda>(bl, frames, w, h, i, c, p, acc). length frames - i)") auto

declare generateCompositedFrames_loop.simps [simp del]

definition generateCompositedFrames :: "blend \<Rightarrow> gifData \<Rightarrow> js_error + image list" where
  "generateCompositedFrames bl gd =
     generateCompositedFrames_loop bl (gif_frames gd) (gif_width gd) (gif_height gd) 0
       (createCanvas (gif_width gd) (gif_height gd)) None []"

section \<open>\<^verbatim>\<open>parseGifFile\<close> (gif-processor.ts)\<close>

text \<open>The result of \<^verbatim>\<open>parseGIF\<close> and \<^verbatim>\<open>decompressFrames\<close>: the logical screen size of the
  container and the decoded frames.\<close>

record parsedGif =
  lsd_width :: nat
  lsd_height :: nat
  decompressedFrames :: "parsedFrame list"

definition parseGifFile :: "parsedGif \<Rightarrow> js_error + gifData" where
  "parseGifFile gif =
     (let frames = decompressedFrames gif in
      if frames = [] then Inl CouldNotParse
      else
        (let frame0 = frames ! 0;
             canvas = createCanvas (dims_width (frame_dims frame0)) (dims_height (frame_dims frame0))
         in case newImageData (frame_patch frame0) (dims_width (frame_dims frame0))
                   (dims_height (frame_dims frame0)) of
              Inl e \<Rightarrow> Inl e
            | Inr imageData \<Rightarrow>
                Inr \<lparr>gif_frames = frames,
                     gif_width = dims_width (frame_dims frame0),
                     gif_height = dims_height (frame_dims frame0),
                     gif_canvas = putImageData imageData (dims_left (frame_dims frame0))
                                    (dims_top (frame_dims frame0)) canvas\<rparr>))"

section \<open>\<^verbatim>\<open>cropGif\<close> (gif-processor.ts)\<close>

text \<open>The result is the sequence of \<^verbatim>\<open>gif.addFrame(cropCtx, {copy: true, delay: frame.delay})\<close>
  calls: the pixels of the crop canvas at that moment, and the delay handed to the encoder.
  The encoder itself (gif.js) is outside the repository. A fresh canvas always yields a 2D
  context, so the \<^verbatim>\<open>if (!tempCtx || !cropCtx)\<close> branch, like the same test in the other
  functions, is never taken and is left out.\<close>

function cropGif_loop ::
  "blend \<Rightarrow> parsedFrame list \<Rightarrow> nat \<Rightarrow> nat \<Rightarrow> nat \<Rightarrow> nat \<Rightarrow> nat \<Rightarrow> image \<Rightarrow> image \<Rightarrow> image option
     \<Rightarrow> (image \<times> nat) list \<Rightarrow> js_error + (image \<times> nat) list" where
  "cropGif_loop bl originalFrames cropX cropY cropWidth cropHeight i tempCanvas cropCanvas
       previousFrameData addedFrames =
     (if i < length originalFrames then
        (let frame = originalFrames ! i in
         case newImageData (frame_patch frame) (dims_width (frame_dims frame))
                (dims_height (frame_dims frame)) of
           Inl e \<Rightarrow> Inl e
         | Inr patchData \<Rightarrow>
             (case disposePrevious originalFrames i previousFrameData tempCanvas of
                Inl e \<Rightarrow> Inl e
              | Inr c1 \<Rightarrow>
                  (case saveState frame (img_width tempCanvas) (img_height tempCanvas)
                          previousFrameData c1 of
                     Inl e \<Rightarrow> Inl e
                   | Inr previousFrameData' \<Rightarrow>
                       (let c2 = drawImage bl patchData (dims_left (frame_dims frame))
                                   (dims_top (frame_dims frame)) c1;
                            cc = drawImageCrop bl c2 cropX cropY cropWidth cropHeight
                                   (clearRect 0 0 cropWidth cropHeight cropCanvas)
                        in cropGif_loop bl originalFrames cropX cropY cropWidth cropHeight (i + 1)
                             c2 cc previousFrameData' (addedFrames @ [(cc, frame_delay frame)])))))
      else Inr addedFrames)"
  by pat_completeness auto
termination
  by (relation "measure (\<lambda>(bl, frames, x, y, w, h, i, r). length frames - i)") auto

declare cropGif_loop.simps [simp del]

text \<open>The canvas \<^verbatim>\<open>cropGif\<close> composites on (\<^verbatim>\<open>tempCanvas\<close>, gif-processor.ts 69-73): it has the
  size of the first of the frames handed over. A canvas whose size is never set has the
  default size 300 x 150.\<close>

definition cropGif_tempCanvas :: "parsedFrame list \<Rightarrow> image" where
  "cropGif_tempCanvas originalFrames =
     (if length originalFrames > 0
      then createCanvas (dims_width (frame_dims (originalFrames ! 0)))
             (dims_height (frame_dims (originalFrames ! 0)))
      else createCanvas 300 150)"

definition cropGif ::
  "blend \<Rightarrow> parsedFrame list \<Rightarrow> nat \<Rightarrow> nat \<Rightarrow> nat \<Rightarrow> nat \<Rightarrow> js_error + (image \<times> nat) list" where
  "cropGif bl originalFrames cropX cropY cropWidth cropHeight =
     (let tempCanvas = cropGif_tempCanvas originalFrames;
          cropCanvas = createCanvas cropWidth cropHeight
      in cropGif_loop bl originalFrames cropX cropY cropWidth cropHeight 0 tempCanvas cropCanvas
           None [])"

section \<open>The snapshot cache: \<^verbatim>\<open>renderToFrame\<close> of the editor\<close>

text \<open>The mutable cells \<^verbatim>\<open>renderToFrame\<close> works on: the composition canvas,
  \<^verbatim>\<open>lastRenderedFrameRef\<close> (its sentinel \<open>-1\<close> is \<open>None\<close>), the \<^verbatim>\<open>snapshotsRef\<close> map in
  insertion order, and the stage image.\<close>

record renderState =
  compositionCanvas :: image
  lastRenderedFrame :: "nat option"
  snapshots :: "(nat \<times> image) list"
  stageImage :: "image option"

text \<open>\<^verbatim>\<open>snapshotsRef.current.forEach((_, frameIdx) => { if (frameIdx <= targetFrame &&
  frameIdx > closestFrame) closestFrame = frameIdx })\<close>, with \<open>None\<close> for \<open>-1\<close>.\<close>

definition closestSnapshot :: "(nat \<times> image) list \<Rightarrow> nat \<Rightarrow> nat option" where
  "closestSnapshot snaps targetFrame =
     fold (\<lambda>(frameIdx, _) closestFrame.
             if frameIdx \<le> targetFrame \<and> (case closestFrame of None \<Rightarrow> True | Some c \<Rightarrow> frameIdx > c)
             then Some frameIdx else closestFrame)
          snaps None"

definition hasSnapshot :: "(nat \<times> image) list \<Rightarrow> nat \<Rightarrow> bool" where
  "hasSnapshot snaps i \<longleftrightarrow> i \<in> fst ` set snaps"

text \<open>Step 1 of \<^verbatim>\<open>renderToFrame\<close>: the frame to start from and the snapshot to restore.\<close>

definition startPoint :: "renderState \<Rightarrow> nat \<Rightarrow> nat \<times> image option" where
  "startPoint st targetFrame =
     (if lastRenderedFrame st \<noteq> None \<and> targetFrame \<ge> the (lastRenderedFrame st)
      then (the (lastRenderedFrame st) + 1, None)
      else
        (case closestSnapshot (snapshots st) targetFrame of
           None \<Rightarrow> (0, None)
         | Some closestFrame \<Rightarrow> (closestFrame + 1, map_of (snapshots st) closestFrame)))"

text \<open>Step 3, the render loop. An exception leaves the canvas and the snapshots as they
  are at that moment: the loop returns them together with the error.\<close>

function renderToFrame_loop ::
  "blend \<Rightarrow> gifData \<Rightarrow> nat \<Rightarrow> nat \<Rightarrow> image option \<Rightarrow> image \<Rightarrow> (nat \<times> image) list
     \<Rightarrow> js_error option \<times> image \<times> (nat \<times> image) list" where
  "renderToFrame_loop bl data targetFrame i previousFrameData canvas snaps =
     (if i \<le> targetFrame then
        (case disposePrevious (gif_frames data) i previousFrameData canvas of
           Inl e \<Rightarrow> (Some e, canvas, snaps)
         | Inr c1 \<Rightarrow>
             (if i < length (gif_frames data) then
                (let frame = gif_frames data ! i in
                 case saveState frame (gif_width data) (gif_height data) previousFrameData c1 of
                   Inl e \<Rightarrow> (Some e, c1, snaps)
                 | Inr previousFrameData' \<Rightarrow>
                     (case drawPatch bl frame c1 of
                        Inl e \<Rightarrow> (Some e, c1, snaps)
                      | Inr c2 \<Rightarrow>
                          (if i mod 10 = 0 \<and> \<not> hasSnapshot snaps i then
                             (case createImageBitmap c2 of
                                Inl e \<Rightarrow> (Some e, c2, snaps)
                              | Inr snapshot \<Rightarrow>
                                  renderToFrame_loop bl data targetFrame (i + 1) previousFrameData' c2
                                    (snaps @ [(i, snapshot)]))
                           else renderToFrame_loop bl data targetFrame (i + 1) previousFrameData' c2
                                  snaps)))
              else (Some TypeError, c1, snaps)))
      else (None, canvas, snaps))"
  by pat_completeness auto
termination
  by (relation "measure (\<lambda>(bl, data, targetFrame, i, r). Suc targetFrame - i)") auto

declare renderToFrame_loop.simps [simp del]

definition renderToFrame :: "blend \<Rightarrow> nat \<Rightarrow> gifData \<Rightarrow> renderState \<Rightarrow> js_error option \<times> renderState" where
  "renderToFrame bl targetFrame data st =
     (let (startFrame, restoreSnapshot) = startPoint st targetFrame;
          canvas = compositionCanvas st;
          c0 = (if startFrame = 0 then clearRect 0 0 (gif_width data) (gif_height data) canvas
                else if restoreSnapshot \<noteq> None
                then drawImage bl (the restoreSnapshot) 0 0
                       (clearRect 0 0 (gif_width data) (gif_height data) canvas)
                else canvas)
      in case renderToFrame_loop bl data targetFrame startFrame None c0 (snapshots st) of
           (Some e, c, snaps) \<Rightarrow> (Some e, st\<lparr>compositionCanvas := c, snapshots := snaps\<rparr>)
         | (None, c, snaps) \<Rightarrow>
             (case createImageBitmap c of
                Inl e \<Rightarrow>
                  (Some e, st\<lparr>compositionCanvas := c, snapshots := snaps,
                               lastRenderedFrame := Some targetFrame\<rparr>)
              | Inr snapshot \<Rightarrow>
                  (None, st\<lparr>compositionCanvas := c, snapshots := snaps,
                            lastRenderedFrame := Some targetFrame, stageImage := Some snapshot\<rparr>)))"

text \<open>The state \<^verbatim>\<open>handleFileSelect\<close> sets up before its initial render: a fresh canvas of
  the GIF's size, \<^verbatim>\<open>lastRenderedFrameRef.current = -1\<close>, no snapshots.\<close>

definition initialRenderState :: "gifData \<Rightarrow> renderState" where
  "initialRenderState data =
     \<lparr>compositionCanvas = createCanvas (gif_width data) (gif_height data),
      lastRenderedFrame = None, snapshots = [], stageImage = None\<rparr>"

text \<open>A sequence of seek requests, each rendered to completion before the next; the first
  exception ends the sequence.\<close>

fun renderSeeks :: "blend \<Rightarrow> gifData \<Rightarrow> nat list \<Rightarrow> renderState \<Rightarrow> js_error option \<times> renderState" where
  "renderSeeks bl data [] st = (None, st)"
| "renderSeeks bl data (t # ts) st =
     (case renderToFrame bl t data st of
        (Some e, st') \<Rightarrow> (Some e, st')
      | (None, st') \<Rightarrow> renderSeeks bl data ts st')"

section \<open>Export: \<^verbatim>\<open>handleExport\<close> of the editor and \<^verbatim>\<open>handleCrop\<close> of GifCropper\<close>

text \<open>A \<^verbatim>\<open>PixelCrop\<close> holds JavaScript numbers, here rationals; \<^verbatim>\<open>Math.round\<close> rounds half up.\<close>

record pixelCrop =
  crop_x :: rat
  crop_y :: rat
  crop_width :: rat
  crop_height :: rat

record cropGifCall =
  call_frames :: "parsedFrame list"
  call_cropX :: int
  call_cropY :: int
  call_cropWidth :: int
  call_cropHeight :: int

definition mathRound :: "rat \<Rightarrow> int" where
  "mathRound v = \<lfloor>v + 1 / 2\<rfloor>"

definition clamp :: "int \<Rightarrow> int \<Rightarrow> int \<Rightarrow> int" where
  "clamp v mn mx = min (max v mn) mx"

text \<open>\<^verbatim>\<open>Array.prototype.slice(a, b)\<close> for non-negative indices.\<close>

definition slice_list :: "'a list \<Rightarrow> nat \<Rightarrow> nat \<Rightarrow> 'a list" where
  "slice_list xs a b = drop a (take b xs)"

text \<open>The call of \<^verbatim>\<open>cropGif\<close> that \<^verbatim>\<open>handleExport\<close> makes; \<open>None\<close> is its early return
  (\<^verbatim>\<open>if (!gifData || exporting) return\<close>).\<close>

definition handleExport_call ::
  "gifData option \<Rightarrow> bool \<Rightarrow> nat \<times> nat \<Rightarrow> pixelCrop option \<Rightarrow> pixelCrop option \<Rightarrow> cropGifCall option" where
  "handleExport_call gifData exporting trimRange appliedCrop completedCrop =
     (case gifData of
        None \<Rightarrow> None
      | Some gd \<Rightarrow>
          if exporting then None
          else
            (let trimmedFrames = slice_list (gif_frames gd) (fst trimRange) (snd trimRange + 1);
                 exportCrop = (case appliedCrop of Some c \<Rightarrow> Some c | None \<Rightarrow> completedCrop)
             in if exportCrop \<noteq> None \<and> crop_width (the exportCrop) \<noteq> 0
                   \<and> crop_height (the exportCrop) \<noteq> 0
                then
                  (let cropX = clamp (mathRound (crop_x (the exportCrop))) 0 (int (gif_width gd) - 1);
                       cropY = clamp (mathRound (crop_y (the exportCrop))) 0 (int (gif_height gd) - 1);
                       cropWidth = clamp (mathRound (crop_width (the exportCrop))) 1
                                     (int (gif_width gd) - cropX);
                       cropHeight = clamp (mathRound (crop_height (the exportCrop))) 1
                                      (int (gif_height gd) - cropY)
                   in Some \<lparr>call_frames = trimmedFrames, call_cropX = cropX, call_cropY = cropY,
                            call_cropWidth = cropWidth, call_cropHeight = cropHeight\<rparr>)
                else
                  Some \<lparr>call_frames = trimmedFrames, call_cropX = 0, call_cropY = 0,
                        call_cropWidth = int (gif_width gd), call_cropHeight = int (gif_height gd)\<rparr>))"

text \<open>The frames \<^verbatim>\<open>handleExport\<close> hands to the encoder: \<open>None\<close> for the early return,
  \<open>Inl\<close> for a rejected \<^verbatim>\<open>cropGif\<close> promise (the \<^verbatim>\<open>catch\<close> branch).\<close>

definition handleExport ::
  "blend \<Rightarrow> gifData option \<Rightarrow> bool \<Rightarrow> nat \<times> nat \<Rightarrow> pixelCrop option \<Rightarrow> pixelCrop option
     \<Rightarrow> (js_error + (image \<times> nat) list) option" where
  "handleExport bl gifData exporting trimRange appliedCrop completedCrop =
     (case handleExport_call gifData exporting trimRange appliedCrop completedCrop of
        None \<Rightarrow> None
      | Some c \<Rightarrow>
          Some (cropGif bl (call_frames c) (nat (call_cropX c)) (nat (call_cropY c))
                  (nat (call_cropWidth c)) (nat (call_cropHeight c))))"

text \<open>\<^verbatim>\<open>handleCrop\<close> of the stand-alone cropper passes the rectangle on as it is.\<close>

definition handleCrop_call ::
  "gifData option \<Rightarrow> pixelCrop option \<Rightarrow> (parsedFrame list \<times> rat \<times> rat \<times> rat \<times> rat) option" where
  "handleCrop_call gifData completedCrop =
     (if gifData = None \<or> completedCrop = None \<or> crop_width (the completedCrop) = 0
         \<or> crop_height (the completedCrop) = 0
      then None
      else Some (gif_frames (the gifData), crop_x (the completedCrop), crop_y (the completedCrop),
                 crop_width (the completedCrop), crop_height (the completedCrop)))"

text \<open>\<^verbatim>\<open>generateThumbnails\<close>: the width of the thumbnails (\<^verbatim>\<open>height = 60\<close> by default),
  \<^verbatim>\<open>scale = height / originalHeight; width = Math.floor(originalWidth * scale)\<close>, for an
  original height that is not zero.\<close>

definition thumbnailWidth :: "rounding \<Rightarrow> gifData \<Rightarrow> nat \<Rightarrow> int" where
  "thumbnailWidth rnd gd height =
     (let scale = rnd (of_nat height / of_nat (gif_height gd))
      in \<lfloor>rnd (of_nat (gif_width gd) * scale)\<rfloor>)"

section \<open>The sequencer: playback loop and seek queue of the editor\<close>

text \<open>\<^verbatim>\<open>renderToFrame\<close> is asynchronous: a call is started, suspends at its first
  \<^verbatim>\<open>await\<close>, and settles later. The sequencer state records the calls started and not yet
  settled, with the code path that started each.\<close>

datatype renderOrigin = FromPlaybackLoop | FromSeekQueue

record sequencer =
  isPlaying :: bool
  currentFrameIdx :: nat
  trimRange :: "nat \<times> nat"
  accumulator :: rat
  isRendering :: bool
  nextSeekFrame :: "nat option"
  inFlight :: "(renderOrigin \<times> nat) list"

text \<open>\<^verbatim>\<open>const updateInterval = frameForDelay?.delay || 100\<close>.\<close>

definition updateInterval :: "parsedFrame list \<Rightarrow> nat \<Rightarrow> nat" where
  "updateInterval frames idx =
     (if idx < length frames \<and> frame_delay (frames ! idx) \<noteq> 0 then frame_delay (frames ! idx)
      else 100)"

text \<open>One run of \<^verbatim>\<open>loop\<close> after \<open>deltaTime\<close> milliseconds; it calls \<^verbatim>\<open>renderToFrame\<close> itself
  and does not wait for it. The sums, the difference and the product are those of doubles:
  \<^verbatim>\<open>accumulator += deltaTime\<close>, \<^verbatim>\<open>accumulator -= updateInterval\<close>, \<^verbatim>\<open>updateInterval * 5\<close>.\<close>

definition loop :: "rounding \<Rightarrow> parsedFrame list \<Rightarrow> rat \<Rightarrow> sequencer \<Rightarrow> sequencer" where
  "loop rnd frames deltaTime s =
     (if \<not> isPlaying s then s
      else
        (let interval = (of_nat (updateInterval frames (currentFrameIdx s)) :: rat);
             acc = rnd (accumulator s + deltaTime)
         in if acc \<ge> interval then
              (let next = currentFrameIdx s + 1;
                   target = (if next > snd (trimRange s) then fst (trimRange s) else next);
                   acc' = rnd (acc - interval)
               in s\<lparr>currentFrameIdx := target,
                    inFlight := inFlight s @ [(FromPlaybackLoop, target)],
                    accumulator := (if acc' > rnd (interval * 5) then 0 else acc')\<rparr>)
            else s\<lparr>accumulator := acc\<rparr>))"

text \<open>\<^verbatim>\<open>processSeekQueue\<close> up to the \<^verbatim>\<open>await performRender(target)\<close>, where \<^verbatim>\<open>performRender\<close>
  has set \<^verbatim>\<open>isRenderingRef\<close> and started \<^verbatim>\<open>renderToFrame\<close>.\<close>

definition processSeekQueue :: "sequencer \<Rightarrow> sequencer" where
  "processSeekQueue s =
     (if isRendering s then s
      else
        (case nextSeekFrame s of
           None \<Rightarrow> s
         | Some target \<Rightarrow>
             s\<lparr>nextSeekFrame := None, isRendering := True,
               inFlight := inFlight s @ [(FromSeekQueue, target)]\<rparr>))"

definition handleSeek :: "nat \<Rightarrow> sequencer \<Rightarrow> sequencer" where
  "handleSeek index s =
     processSeekQueue (s\<lparr>currentFrameIdx := index, isPlaying := False, nextSeekFrame := Some index\<rparr>)"

text \<open>The \<open>k\<close>-th call in flight settles. For a call started by \<^verbatim>\<open>performRender\<close>, its
  \<^verbatim>\<open>finally\<close> block clears \<^verbatim>\<open>isRenderingRef\<close> and \<^verbatim>\<open>processSeekQueue\<close> runs again.\<close>

definition renderSettled :: "nat \<Rightarrow> sequencer \<Rightarrow> sequencer" where
  "renderSettled k s =
     (if k < length (inFlight s) then
        (let s' = s\<lparr>inFlight := take k (inFlight s) @ drop (k + 1) (inFlight s)\<rparr>
         in if fst (inFlight s ! k) = FromSeekQueue
            then processSeekQueue (s'\<lparr>isRendering := False\<rparr>)
            else s')
      else s)"

text \<open>The play button: \<^verbatim>\<open>setIsPlaying(!isPlaying)\<close>; the playback effect starts with
  \<^verbatim>\<open>accumulator = 0\<close>.\<close>

definition togglePlay :: "sequencer \<Rightarrow> sequencer" where
  "togglePlay s = s\<lparr>isPlaying := \<not> isPlaying s, accumulator := 0\<rparr>"

section \<open>The compositor as the specification words it\<close>

text \<open>The three disposal directives of the specification, and the compositing step it
  describes: disposal of the previous frame, then capture of the canvas for a frame that
  asks to be restored, then the drawing of the patch. These definitions follow the
  specification; the theorems below compare the loops of the source with them.\<close>

datatype disposal = DisposeNone | RestoreBackground | RestorePrevious

definition disposalOf :: "nat \<Rightarrow> disposal" where
  "disposalOf d = (if d = 2 then RestoreBackground else if d = 3 then RestorePrevious else DisposeNone)"

definition patchImage :: "parsedFrame \<Rightarrow> image" where
  "patchImage f =
     mkImage (dims_width (frame_dims f)) (dims_height (frame_dims f))
       (\<lambda>x y. frame_patch f ! (y * dims_width (frame_dims f) + x))"

definition spec_disposal :: "parsedFrame \<Rightarrow> image option \<Rightarrow> image \<Rightarrow> image" where
  "spec_disposal prev savedForRestore c =
     (case disposalOf (frame_disposalType prev) of
        DisposeNone \<Rightarrow> c
      | RestoreBackground \<Rightarrow>
          clearRect (dims_left (frame_dims prev)) (dims_top (frame_dims prev))
            (dims_width (frame_dims prev)) (dims_height (frame_dims prev)) c
      | RestorePrevious \<Rightarrow> (case savedForRestore of None \<Rightarrow> c | Some b \<Rightarrow> b))"

definition spec_capture :: "parsedFrame \<Rightarrow> image option \<Rightarrow> image \<Rightarrow> image option" where
  "spec_capture f savedForRestore c =
     (if disposalOf (frame_disposalType f) = RestorePrevious then Some c else savedForRestore)"

definition spec_draw :: "blend \<Rightarrow> parsedFrame \<Rightarrow> image \<Rightarrow> image" where
  "spec_draw bl f c = drawImage bl (patchImage f) (dims_left (frame_dims f)) (dims_top (frame_dims f)) c"

text \<open>The canvas after each frame of a sequence; \<open>prior\<close> is the frame before the first one
  (\<open>None\<close> when nothing precedes it).\<close>

fun spec_composite ::
  "blend \<Rightarrow> parsedFrame option \<Rightarrow> parsedFrame list \<Rightarrow> image \<Rightarrow> image option \<Rightarrow> image list" where
  "spec_composite bl prior [] c savedForRestore = []"
| "spec_composite bl prior (f # fs) c savedForRestore =
     (let c1 = (case prior of None \<Rightarrow> c | Some p \<Rightarrow> spec_disposal p savedForRestore c);
          savedForRestore' = spec_capture f savedForRestore c1;
          c2 = spec_draw bl f c1
      in c2 # spec_composite bl (Some f) fs c2 savedForRestore')"

definition spec_crop :: "blend \<Rightarrow> nat \<Rightarrow> nat \<Rightarrow> nat \<Rightarrow> nat \<Rightarrow> image \<Rightarrow> image" where
  "spec_crop bl x y w h c = drawImageCrop bl c x y w h (createCanvas w h)"

text \<open>The frames the decoder is trusted to deliver: a non-empty rectangle, filled by the
  patch.\<close>

definition validFrame :: "parsedFrame \<Rightarrow> bool" where
  "validFrame f \<longleftrightarrow>
     0 < dims_width (frame_dims f) \<and> 0 < dims_height (frame_dims f)
     \<and> length (frame_patch f) = dims_width (frame_dims f) * dims_height (frame_dims f)"

text \<open>The geometry invariants of the data model for a crop rectangle and a trim range.\<close>

definition cropValid :: "nat \<Rightarrow> nat \<Rightarrow> pixelCrop \<Rightarrow> bool" where
  "cropValid canvasWidth canvasHeight c \<longleftrightarrow>
     crop_x c \<ge> 0 \<and> crop_y c \<ge> 0 \<and> crop_width c \<ge> 1 \<and> crop_height c \<ge> 1
     \<and> crop_x c + crop_width c \<le> of_nat canvasWidth \<and> crop_y c + crop_height c \<le> of_nat canvasHeight"

definition trimValid :: "nat \<Rightarrow> nat \<times> nat \<Rightarrow> bool" where
  "trimValid frameCount r \<longleftrightarrow> fst r \<le> snd r \<and> snd r < frameCount"

definition callValid :: "nat \<Rightarrow> nat \<Rightarrow> cropGifCall \<Rightarrow> bool" where
  "callValid canvasWidth canvasHeight c \<longleftrightarrow>
     call_cropX c \<ge> 0 \<and> call_cropY c \<ge> 0 \<and> call_cropWidth c \<ge> 1 \<and> call_cropHeight c \<ge> 1
     \<and> call_cropX c + call_cropWidth c \<le> int canvasWidth
     \<and> call_cropY c + call_cropHeight c \<le> int canvasHeight"

text \<open>A crop rectangle rounded and clamped into a canvas, value by value: the position into
  the canvas, then the size into what is left of it. And a rectangle of whole numbers.\<close>

definition clampedCrop :: "nat \<Rightarrow> nat \<Rightarrow> pixelCrop \<Rightarrow> int \<times> int \<times> int \<times> int" where
  "clampedCrop canvasWidth canvasHeight e =
     (let x = clamp (mathRound (crop_x e)) 0 (int canvasWidth - 1);
          y = clamp (mathRound (crop_y e)) 0 (int canvasHeight - 1)
      in (x, y, clamp (mathRound (crop_width e)) 1 (int canvasWidth - x),
          clamp (mathRound (crop_height e)) 1 (int canvasHeight - y)))"

definition wholeCrop :: "pixelCrop \<Rightarrow> bool" where
  "wholeCrop e \<longleftrightarrow>
     of_int \<lfloor>crop_x e\<rfloor> = crop_x e \<and> of_int \<lfloor>crop_y e\<rfloor> = crop_y e
     \<and> of_int \<lfloor>crop_width e\<rfloor> = crop_width e \<and> of_int \<lfloor>crop_height e\<rfloor> = crop_height e"

text \<open>A well-formed pixel grid of a given size; and a grid whose pixels the blend leaves
  as they are when they are drawn over transparent black.\<close>

definition sized :: "nat \<Rightarrow> nat \<Rightarrow> image \<Rightarrow> bool" where
  "sized w h c \<longleftrightarrow> wf_image c \<and> img_width c = w \<and> img_height c = h"

definition flat :: "blend \<Rightarrow> image \<Rightarrow> bool" where
  "flat bl c \<longleftrightarrow> list_all (list_all (\<lambda>p. bl p transparent = p)) (img_rows c)"

text \<open>What the export hands to the encoder for a sequence of composited canvases: the crop
  of each canvas with the delay of its frame.\<close>

definition emitted ::
  "blend \<Rightarrow> nat \<Rightarrow> nat \<Rightarrow> nat \<Rightarrow> nat \<Rightarrow> image list \<Rightarrow> parsedFrame list \<Rightarrow> (image \<times> nat) list" where
  "emitted bl x y w h cs fs = map (\<lambda>(c, f). (spec_crop bl x y w h c, frame_delay f)) (zip cs fs)"

text \<open>The sequential composite of a whole GIF, the invariant of the snapshot cache (the live
  canvas and every snapshot are frames of the sequential composite), and the GIFs in which
  no frame asks for restore-to-previous.\<close>

definition sequentialComposite :: "blend \<Rightarrow> gifData \<Rightarrow> image list" where
  "sequentialComposite bl data =
     spec_composite bl None (gif_frames data) (createCanvas (gif_width data) (gif_height data)) None"

definition cacheInv :: "blend \<Rightarrow> gifData \<Rightarrow> renderState \<Rightarrow> bool" where
  "cacheInv bl data st \<longleftrightarrow>
     sized (gif_width data) (gif_height data) (compositionCanvas st)
     \<and> (case lastRenderedFrame st of None \<Rightarrow> True
         | Some l \<Rightarrow> l < length (gif_frames data) \<and> compositionCanvas st = sequentialComposite bl data ! l)
     \<and> list_all (\<lambda>(k, s). k < length (gif_frames data) \<and> s = sequentialComposite bl data ! k)
          (snapshots st)"

definition noRestorePrevious :: "parsedFrame list \<Rightarrow> bool" where
  "noRestorePrevious frames = list_all (\<lambda>f. frame_disposalType f \<noteq> 3) frames"

text \<open>The renders in flight that the seek queue started, and the invariant of its gate: there
  is one exactly while \<^verbatim>\<open>isRenderingRef\<close> is set.\<close>

definition gatedInFlight :: "sequencer \<Rightarrow> nat" where
  "gatedInFlight s = length (filter (\<lambda>r. fst r = FromSeekQueue) (inFlight s))"

definition gateInv :: "sequencer \<Rightarrow> bool" where
  "gateInv s \<longleftrightarrow> gatedInFlight s = (if isRendering s then 1 else 0)"

section \<open>Example data\<close>

text \<open>Source-over for the two alpha values a decoded GIF patch carries: a transparent
  source pixel leaves the destination, an opaque one replaces it.\<close>

definition overOpaque :: blend where
  "overOpaque s d = (if alpha s = 0 then d else s)"

definition redPx :: pixel where "redPx = RGBA 255 0 0 255"
definition greenPx :: pixel where "greenPx = RGBA 0 255 0 255"

definition mkFrame :: "nat \<Rightarrow> nat \<Rightarrow> nat \<Rightarrow> nat \<Rightarrow> nat \<Rightarrow> nat \<Rightarrow> pixel list \<Rightarrow> parsedFrame" where
  "mkFrame l t w h delay disposalType p =
     \<lparr>frame_dims = \<lparr>dims_left = l, dims_top = t, dims_width = w, dims_height = h\<rparr>,
      frame_delay = delay, frame_disposalType = disposalType, frame_patch = p\<rparr>"

text \<open>A 2 x 1 animation: a red frame that asks to be restored, then a green pixel on the
  left.\<close>

definition restoreFrames :: "parsedFrame list" where
  "restoreFrames = [mkFrame 0 0 2 1 0 3 [redPx, redPx], mkFrame 0 0 1 1 50 1 [greenPx]]"

definition restoreGif :: gifData where
  "restoreGif = \<lparr>gif_frames = restoreFrames, gif_width = 2, gif_height = 1,
                  gif_canvas = mkImage 2 1 (\<lambda>x y. redPx)\<rparr>"

text \<open>A sequencer that plays the trim range 0..1 with no render in flight; a crop rectangle
  outside every canvas; a container whose logical screen (4 x 4) is larger than the first
  frame of \<open>restoreFrames\<close> (2 x 1).\<close>

definition idlePlaying :: sequencer where
  "idlePlaying = \<lparr>isPlaying = True, currentFrameIdx = 0, trimRange = (0, 1), accumulator = 0,
      isRendering = False, nextSeekFrame = None, inFlight = []\<rparr>"

text \<open>The rounding that changes nothing: the whole numbers of the examples are doubles.\<close>

definition exactRound :: rounding where
  "exactRound x = x"

text \<open>A 2 x 1 animation of three frames, none of which is disposed of: a red frame, a green
  pixel on the right, a green pixel on the left. Its container, and the GIF as parsed.\<close>

definition patchFrames :: "parsedFrame list" where
  "patchFrames = [mkFrame 0 0 2 1 40 1 [redPx, redPx], mkFrame 1 0 1 1 40 1 [greenPx],
                  mkFrame 0 0 1 1 40 1 [greenPx]]"

definition patchContainer :: parsedGif where
  "patchContainer = \<lparr>lsd_width = 2, lsd_height = 1, decompressedFrames = patchFrames\<rparr>"

definition patchGif :: gifData where
  "patchGif = \<lparr>gif_frames = patchFrames, gif_width = 2, gif_height = 1,
                gif_canvas = mkImage 2 1 (\<lambda>x y. redPx)\<rparr>"

definition wholeValidCrop :: pixelCrop where
  "wholeValidCrop = \<lparr>crop_x = 1, crop_y = 0, crop_width = 1, crop_height = 1\<rparr>"

definition badCrop :: pixelCrop where
  "badCrop = \<lparr>crop_x = - 5, crop_y = 0, crop_width = 9, crop_height = 1\<rparr>"

definition smallFirstFrameGif :: parsedGif where
  "smallFirstFrameGif = \<lparr>lsd_width = 4, lsd_height = 4, decompressedFrames = restoreFrames\<rparr>"

text \<open>A 2 x 1 animation without restore-to-previous: a red frame that is cleared to the
  background, then a green pixel on the right.\<close>

definition backgroundGif :: gifData where
  "backgroundGif =
     \<lparr>gif_frames = [mkFrame 0 0 2 1 40 2 [redPx, redPx], mkFrame 1 0 1 1 40 0 [greenPx]],
      gif_width = 2, gif_height = 1, gif_canvas = mkImage 2 1 (\<lambda>x y. redPx)\<rparr>"

section \<open>Pixel grids: basic facts\<close>

lemma img_width_mkImage [simp]: "img_width (mkImage w h f) = w"
  and img_height_mkImage [simp]: "img_height (mkImage w h f) = h"
  by (simp_all add: mkImage_def)

lemma wf_mkImage [simp]: "wf_image (mkImage w h f)"
  by (simp add: wf_image_def mkImage_def list_all_iff)

lemma pixelAt_mkImage [simp]:
  "pixelAt (mkImage w h f) x y = (if x < w \<and> y < h then f x y else transparent)"
  by (simp add: pixelAt_def mkImage_def)

lemma mkImage_cong:
  "(\<And>x y. x < w \<Longrightarrow> y < h \<Longrightarrow> f x y = g x y) \<Longrightarrow> mkImage w h f = mkImage w h g"
  by (simp add: mkImage_def)

lemma mkImage_pixelAt:
  assumes "wf_image c"
  shows "mkImage (img_width c) (img_height c) (pixelAt c) = c"
proof -
  have len: "length (img_rows c) = img_height c"
    and row: "\<And>y. y < img_height c \<Longrightarrow> length (img_rows c ! y) = img_width c"
    using assms by (auto simp: wf_image_def list_all_length)
  have "map (\<lambda>y. map (\<lambda>x. pixelAt c x y) [0..<img_width c]) [0..<img_height c] = img_rows c"
  proof (rule nth_equalityI)
    show "length (map (\<lambda>y. map (\<lambda>x. pixelAt c x y) [0..<img_width c]) [0..<img_height c])
            = length (img_rows c)"
      by (simp add: len)
  next
    fix y
    assume "y < length (map (\<lambda>y. map (\<lambda>x. pixelAt c x y) [0..<img_width c]) [0..<img_height c])"
    then have y: "y < img_height c" by simp
    have "map (\<lambda>x. pixelAt c x y) [0..<img_width c] = img_rows c ! y"
      by (rule nth_equalityI) (simp_all add: row y pixelAt_def len)
    then show "map (\<lambda>y. map (\<lambda>x. pixelAt c x y) [0..<img_width c]) [0..<img_height c] ! y
                 = img_rows c ! y"
      using y by simp
  qed
  then show ?thesis by (simp add: mkImage_def)
qed

section \<open>The canvas operations on sized grids\<close>

lemma sized_mkImage [simp]: "sized w h (mkImage w' h' f) \<longleftrightarrow> w' = w \<and> h' = h"
  by (simp add: sized_def)

lemma sized_ops [simp]:
  "sized w h (createCanvas w' h') \<longleftrightarrow> w' = w \<and> h' = h"
  "sized w h (clearRect x y rw rh c) \<longleftrightarrow> img_width c = w \<and> img_height c = h"
  "sized w h (putImageData d dx dy c) \<longleftrightarrow> img_width c = w \<and> img_height c = h"
  "sized w h (drawImage bl b dx dy c) \<longleftrightarrow> img_width c = w \<and> img_height c = h"
  "sized w h (drawImageCrop bl src sx sy sw sh c) \<longleftrightarrow> img_width c = w \<and> img_height c = h"
  by (simp_all add: createCanvas_def clearRect_def putImageData_def drawImage_def drawImageCrop_def)

lemma dims_ops [simp]:
  "img_width (createCanvas w h) = w" "img_height (createCanvas w h) = h"
  "img_width (clearRect x y rw rh c) = img_width c" "img_height (clearRect x y rw rh c) = img_height c"
  "img_width (putImageData d dx dy c) = img_width c" "img_height (putImageData d dx dy c) = img_height c"
  "img_width (drawImage bl b dx dy c) = img_width c" "img_height (drawImage bl b dx dy c) = img_height c"
  "img_width (drawImageCrop bl src sx sy sw sh c) = img_width c"
  "img_height (drawImageCrop bl src sx sy sw sh c) = img_height c"
  by (simp_all add: createCanvas_def clearRect_def putImageData_def drawImage_def drawImageCrop_def)

lemma wf_ops [simp]:
  "wf_image (createCanvas w h)"
  "wf_image (clearRect x y rw rh c)"
  "wf_image (putImageData d dx dy c)"
  "wf_image (drawImage bl b dx dy c)"
  "wf_image (drawImageCrop bl src sx sy sw sh c)"
  by (simp_all add: createCanvas_def clearRect_def putImageData_def drawImage_def drawImageCrop_def)

lemma getImageData_full:
  "sized w h c \<Longrightarrow> 0 < w \<Longrightarrow> 0 < h \<Longrightarrow> getImageData 0 0 w h c = Inr c"
  using mkImage_pixelAt [of c] by (simp add: getImageData_def sized_def)

lemma putImageData_full:
  assumes "sized w h d" "img_width c = w" "img_height c = h"
  shows "putImageData d 0 0 c = d"
proof -
  have "putImageData d 0 0 c = mkImage w h (pixelAt d)"
    unfolding putImageData_def using assms
    by (auto simp: sized_def inRect_def intro!: mkImage_cong)
  then show ?thesis using assms mkImage_pixelAt [of d] by (simp add: sized_def)
qed

lemma createImageBitmap_sized:
  "sized w h c \<Longrightarrow> 0 < w \<Longrightarrow> 0 < h \<Longrightarrow> createImageBitmap c = Inr c"
  using mkImage_pixelAt [of c] by (simp add: createImageBitmap_def sized_def)

lemma clearRect_all:
  "img_width c = w \<Longrightarrow> img_height c = h \<Longrightarrow> clearRect 0 0 w h c = createCanvas w h"
  unfolding clearRect_def createCanvas_def by (auto simp: inRect_def intro!: mkImage_cong)

lemma newImageData_valid:
  "validFrame f \<Longrightarrow>
   newImageData (frame_patch f) (dims_width (frame_dims f)) (dims_height (frame_dims f)) = Inr (patchImage f)"
  by (simp add: validFrame_def newImageData_def patchImage_def)

lemma drawPatch_valid: "validFrame f \<Longrightarrow> drawPatch bl f c = Inr (spec_draw bl f c)"
  by (simp add: drawPatch_def newImageData_valid spec_draw_def)

lemma disposePrevious_spec:
  assumes "0 < i" "i \<le> length frames" "img_width c = w" "img_height c = h"
    and "\<And>b. previousFrameData = Some b \<Longrightarrow> sized w h b"
  shows "disposePrevious frames i previousFrameData c = Inr (spec_disposal (frames ! (i - 1)) previousFrameData c)"
  using assms
  by (cases previousFrameData)
     (auto simp: disposePrevious_def spec_disposal_def disposalOf_def Let_def putImageData_full)

lemma disposePrevious_first: "disposePrevious frames 0 previousFrameData c = Inr c"
  by (simp add: disposePrevious_def)

lemma saveState_spec:
  "sized w h c \<Longrightarrow> 0 < w \<Longrightarrow> 0 < h \<Longrightarrow>
   saveState f w h previousFrameData c = Inr (spec_capture f previousFrameData c)"
  by (simp add: saveState_def spec_capture_def disposalOf_def getImageData_full)

lemma sized_spec_disposal:
  "sized w h c \<Longrightarrow> (\<And>b. s = Some b \<Longrightarrow> sized w h b) \<Longrightarrow> sized w h (spec_disposal p s c)"
  by (auto simp: spec_disposal_def sized_def split: disposal.splits option.splits)

lemma sized_spec_draw: "sized w h c \<Longrightarrow> sized w h (spec_draw bl f c)"
  by (simp add: spec_draw_def sized_def)

lemma sized_spec_capture:
  "sized w h c \<Longrightarrow> (\<And>b. s = Some b \<Longrightarrow> sized w h b) \<Longrightarrow> spec_capture f s c = Some b \<Longrightarrow> sized w h b"
  by (auto simp: spec_capture_def split: if_splits)

section \<open>The loops of the source against the specified step\<close>

lemma generateCompositedFrames_loop_spec:
  assumes valid: "list_all validFrame frames" and pos: "0 < w" "0 < h"
  shows "i \<le> length frames \<Longrightarrow> sized w h c \<Longrightarrow> (\<And>b. prev = Some b \<Longrightarrow> sized w h b) \<Longrightarrow>
    generateCompositedFrames_loop bl frames w h i c prev acc
      = Inr (acc @ spec_composite bl (if i = 0 then None else Some (frames ! (i - 1))) (drop i frames) c prev)"
proof (induction "length frames - i" arbitrary: i c prev acc)
  case 0
  then show ?case by (simp add: generateCompositedFrames_loop.simps)
next
  case (Suc n)
  then have lt: "i < length frames" by simp
  define f where "f = frames ! i"
  define c1 where "c1 = (case (if i = 0 then None else Some (frames ! (i - 1))) of None \<Rightarrow> c | Some p \<Rightarrow> spec_disposal p prev c)"
  define prev' where "prev' = spec_capture f prev c1"
  define c2 where "c2 = spec_draw bl f c1"
  have vf: "validFrame f" using valid lt by (simp add: f_def list_all_length)
  have cw: "img_width c = w" "img_height c = h" using Suc.prems(2) by (simp_all add: sized_def)
  have d: "disposePrevious frames i prev c = Inr c1"
    using lt Suc.prems(3) cw by (cases "i = 0") (simp_all add: c1_def disposePrevious_first disposePrevious_spec)
  have s1: "sized w h c1"
    using Suc.prems(2,3) by (auto simp: c1_def intro: sized_spec_disposal)
  have s: "saveState f w h prev c1 = Inr prev'"
    using s1 pos by (simp add: prev'_def saveState_spec)
  have p: "drawPatch bl f c1 = Inr c2"
    using vf by (simp add: c2_def drawPatch_valid)
  have s2: "sized w h c2" using s1 by (simp add: c2_def sized_spec_draw)
  have b: "createImageBitmap c2 = Inr c2" using s2 pos by (rule createImageBitmap_sized)
  have sp: "\<And>b. prev' = Some b \<Longrightarrow> sized w h b"
    using s1 Suc.prems(3) unfolding prev'_def by (rule sized_spec_capture)
  have IH: "generateCompositedFrames_loop bl frames w h (Suc i) c2 prev' (acc @ [c2])
      = Inr ((acc @ [c2]) @ spec_composite bl (Some (frames ! i)) (drop (Suc i) frames) c2 prev')"
    using Suc.hyps(1) [of "Suc i" c2 prev' "acc @ [c2]"] Suc.hyps(2) lt s2 sp by simp
  have dr: "drop i frames = f # drop (Suc i) frames"
    using lt by (simp add: f_def Cons_nth_drop_Suc)
  show ?case
    apply (subst generateCompositedFrames_loop.simps)
    apply (simp add: lt d s p b IH dr f_def [symmetric] Let_def)
    apply (simp add: c1_def c2_def prev'_def f_def)
    done
qed

lemma cropGif_loop_spec:
  assumes valid: "list_all validFrame frames" and pos: "0 < w" "0 < h"
  shows "i \<le> length frames \<Longrightarrow> sized w h c \<Longrightarrow> img_width cc = cw \<Longrightarrow> img_height cc = ch \<Longrightarrow>
    (\<And>b. prev = Some b \<Longrightarrow> sized w h b) \<Longrightarrow>
    cropGif_loop bl frames X Y cw ch i c cc prev acc
      = Inr (acc @ emitted bl X Y cw ch
               (spec_composite bl (if i = 0 then None else Some (frames ! (i - 1))) (drop i frames) c prev)
               (drop i frames))"
proof (induction "length frames - i" arbitrary: i c cc prev acc)
  case 0
  then show ?case by (simp add: cropGif_loop.simps emitted_def)
next
  case (Suc n)
  then have lt: "i < length frames" by simp
  define f where "f = frames ! i"
  define c1 where "c1 = (case (if i = 0 then None else Some (frames ! (i - 1))) of None \<Rightarrow> c | Some p \<Rightarrow> spec_disposal p prev c)"
  define prev' where "prev' = spec_capture f prev c1"
  define c2 where "c2 = spec_draw bl f c1"
  define cc' where "cc' = spec_crop bl X Y cw ch c2"
  have vf: "validFrame f" using valid lt by (simp add: f_def list_all_length)
  have cwh: "img_width c = w" "img_height c = h" using Suc.prems(2) by (simp_all add: sized_def)
  have n: "newImageData (frame_patch f) (dims_width (frame_dims f)) (dims_height (frame_dims f)) = Inr (patchImage f)"
    using vf by (rule newImageData_valid)
  have d: "disposePrevious frames i prev c = Inr c1"
    using lt Suc.prems(5) cwh by (cases "i = 0") (simp_all add: c1_def disposePrevious_first disposePrevious_spec)
  have s1: "sized w h c1"
    using Suc.prems(2,5) by (auto simp: c1_def intro: sized_spec_disposal)
  have s: "saveState f w h prev c1 = Inr prev'"
    using s1 pos by (simp add: prev'_def saveState_spec)
  have dr1: "drawImage bl (patchImage f) (dims_left (frame_dims f)) (dims_top (frame_dims f)) c1 = c2"
    by (simp add: c2_def spec_draw_def)
  have s2: "sized w h c2" using s1 by (simp add: c2_def sized_spec_draw)
  have cr: "drawImageCrop bl c2 X Y cw ch (clearRect 0 0 cw ch cc) = cc'"
    using Suc.prems(3,4) by (simp add: cc'_def spec_crop_def clearRect_all)
  have ccd: "img_width cc' = cw" "img_height cc' = ch"
    by (simp_all add: cc'_def spec_crop_def)
  have sp: "\<And>b. prev' = Some b \<Longrightarrow> sized w h b"
    using s1 Suc.prems(5) unfolding prev'_def by (rule sized_spec_capture)
  have IH: "cropGif_loop bl frames X Y cw ch (Suc i) c2 cc' prev' (acc @ [(cc', frame_delay f)])
      = Inr ((acc @ [(cc', frame_delay f)]) @ emitted bl X Y cw ch
               (spec_composite bl (Some (frames ! i)) (drop (Suc i) frames) c2 prev') (drop (Suc i) frames))"
    using Suc.hyps(1) [of "Suc i" c2 cc' prev' "acc @ [(cc', frame_delay f)]"] Suc.hyps(2) lt s2 sp ccd by simp
  have dr: "drop i frames = f # drop (Suc i) frames"
    using lt by (simp add: f_def Cons_nth_drop_Suc)
  show ?case
    apply (subst cropGif_loop.simps)
    apply (simp add: lt n d s cwh dr1 cr IH dr f_def [symmetric] Let_def)
    apply (simp add: c1_def c2_def prev'_def f_def cc'_def emitted_def)
    done
qed

lemma generateCompositedFrames_spec:
  assumes "list_all validFrame (gif_frames gd)" "0 < gif_width gd" "0 < gif_height gd"
  shows "generateCompositedFrames bl gd
     = Inr (spec_composite bl None (gif_frames gd) (createCanvas (gif_width gd) (gif_height gd)) None)"
  unfolding generateCompositedFrames_def
  using generateCompositedFrames_loop_spec [OF assms, of 0 "createCanvas (gif_width gd) (gif_height gd)" None bl "[]"]
  by simp

lemma cropGif_spec:
  assumes "list_all validFrame frames"
  shows "cropGif bl frames X Y W H
     = Inr (emitted bl X Y W H
              (spec_composite bl None frames
                 (createCanvas (dims_width (frame_dims (frames ! 0))) (dims_height (frame_dims (frames ! 0)))) None)
              frames)"
proof (cases frames)
  case Nil
  then show ?thesis by (simp add: cropGif_def cropGif_tempCanvas_def cropGif_loop.simps emitted_def)
next
  case (Cons f fs)
  then have "validFrame (frames ! 0)" using assms by simp
  then have pos: "0 < dims_width (frame_dims (frames ! 0))" "0 < dims_height (frame_dims (frames ! 0))"
    by (simp_all add: validFrame_def)
  have ne: "0 < length frames" using Cons by simp
  show ?thesis
    unfolding cropGif_def cropGif_tempCanvas_def Let_def
    using cropGif_loop_spec [OF assms pos, of 0
            "createCanvas (dims_width (frame_dims (frames ! 0))) (dims_height (frame_dims (frames ! 0)))"
            "createCanvas W H" W H None bl X Y "[]"] ne
    by simp
qed

section \<open>The render loop of the snapshot cache\<close>

lemma hasSnapshot_append:
  "hasSnapshot (snaps @ [(i, s)]) j \<longleftrightarrow> j = i \<or> hasSnapshot snaps j"
  by (auto simp: hasSnapshot_def)

lemma renderToFrame_loop_done:
  "t < i \<Longrightarrow> renderToFrame_loop bl data t i prev c snaps = (None, c, snaps)"
  by (subst renderToFrame_loop.simps) simp

lemma saveState_ok:
  "0 < w \<Longrightarrow> 0 < h \<Longrightarrow> \<exists>p. saveState f w h prev c = Inr p"
  by (simp add: saveState_def getImageData_def)

lemma disposePrevious_ok:
  "i \<le> length frames \<Longrightarrow> \<exists>c1. disposePrevious frames i prev c = Inr c1 \<and> img_width c1 = img_width c \<and> img_height c1 = img_height c"
  by (cases i) (auto simp: disposePrevious_def Let_def)

lemma createImageBitmap_ok:
  "0 < img_width c \<Longrightarrow> 0 < img_height c \<Longrightarrow> \<exists>s. createImageBitmap c = Inr s"
  by (simp add: createImageBitmap_def)

lemma renderToFrame_loop_snapshots:
  assumes valid: "list_all validFrame (gif_frames data)" and pos: "0 < gif_width data" "0 < gif_height data"
    and t: "t < length (gif_frames data)"
  shows "0 < img_width c \<Longrightarrow> 0 < img_height c \<Longrightarrow>
    \<exists>c' new. renderToFrame_loop bl data t i prev c snaps = (None, c', snaps @ new)
       \<and> map fst new = filter (\<lambda>j. j mod 10 = 0 \<and> \<not> hasSnapshot snaps j) [i..<Suc t]
       \<and> img_width c' = img_width c \<and> img_height c' = img_height c"
proof (induction "Suc t - i" arbitrary: i prev c snaps)
  case 0
  then have "t < i" by simp
  then show ?case by (simp add: renderToFrame_loop_done)
next
  case (Suc n)
  then have le: "i \<le> t" by simp
  then have lt: "i < length (gif_frames data)" using t by simp
  define f where "f = gif_frames data ! i"
  have vf: "validFrame f" using valid lt by (simp add: f_def list_all_length)
  obtain c1 where d: "disposePrevious (gif_frames data) i prev c = Inr c1"
    and c1: "img_width c1 = img_width c" "img_height c1 = img_height c"
    using disposePrevious_ok [of i "gif_frames data" prev c] lt by auto
  obtain prev' where s: "saveState f (gif_width data) (gif_height data) prev c1 = Inr prev'"
    using saveState_ok [OF pos] by blast
  define c2 where "c2 = spec_draw bl f c1"
  have p: "drawPatch bl f c1 = Inr c2" using vf by (simp add: c2_def drawPatch_valid)
  have c2: "img_width c2 = img_width c" "img_height c2 = img_height c"
    by (simp_all add: c2_def spec_draw_def c1)
  have c2pos: "0 < img_width c2" "0 < img_height c2" using Suc.prems by (simp_all add: c2)
  have up: "[i..<Suc t] = i # [Suc i..<Suc t]" using le by (simp add: upt_conv_Cons)
  have n: "n = Suc t - Suc i" using Suc.hyps(2) by simp
  show ?case
  proof (cases "i mod 10 = 0 \<and> \<not> hasSnapshot snaps i")
    case True
    obtain sn where b: "createImageBitmap c2 = Inr sn"
      using createImageBitmap_ok [OF c2pos] by blast
    obtain c' new where IH:
      "renderToFrame_loop bl data t (Suc i) prev' c2 (snaps @ [(i, sn)]) = (None, c', (snaps @ [(i, sn)]) @ new)"
      "map fst new = filter (\<lambda>j. j mod 10 = 0 \<and> \<not> hasSnapshot (snaps @ [(i, sn)]) j) [Suc i..<Suc t]"
      "img_width c' = img_width c2" "img_height c' = img_height c2"
      using Suc.hyps(1) [OF n c2pos, of prev' "snaps @ [(i, sn)]"] by blast
    have flt: "filter (\<lambda>j. j mod 10 = 0 \<and> \<not> hasSnapshot (snaps @ [(i, sn)]) j) [Suc i..<Suc t]
        = filter (\<lambda>j. j mod 10 = 0 \<and> \<not> hasSnapshot snaps j) [Suc i..<Suc t]"
      by (rule filter_cong) (auto simp: hasSnapshot_append)
    have A: "renderToFrame_loop bl data t i prev c snaps = (None, c', snaps @ ((i, sn) # new))"
      by (subst renderToFrame_loop.simps)
         (simp add: le lt d s p b True f_def [symmetric] Let_def IH(1))
    have B: "map fst ((i, sn) # new) = filter (\<lambda>j. j mod 10 = 0 \<and> \<not> hasSnapshot snaps j) [i..<Suc t]"
      using True by (simp add: up IH(2) flt del: upt_Suc)
    have C: "img_width c' = img_width c" "img_height c' = img_height c"
      using IH(3,4) c2 by simp_all
    show ?thesis
      by (rule exI [of _ c'], rule exI [of _ "(i, sn) # new"]) (intro conjI A B C)
  next
    case False
    obtain c' new where IH:
      "renderToFrame_loop bl data t (Suc i) prev' c2 snaps = (None, c', snaps @ new)"
      "map fst new = filter (\<lambda>j. j mod 10 = 0 \<and> \<not> hasSnapshot snaps j) [Suc i..<Suc t]"
      "img_width c' = img_width c2" "img_height c' = img_height c2"
      using Suc.hyps(1) [OF n c2pos, of prev' snaps] by blast
    have A: "renderToFrame_loop bl data t i prev c snaps = (None, c', snaps @ new)"
      using False
      by (subst renderToFrame_loop.simps)
         (auto simp add: le lt d s p f_def [symmetric] Let_def IH(1))
    have B: "map fst new = filter (\<lambda>j. j mod 10 = 0 \<and> \<not> hasSnapshot snaps j) [i..<Suc t]"
      using False by (auto simp add: up IH(2) simp del: upt_Suc)
    have C: "img_width c' = img_width c" "img_height c' = img_height c"
      using IH(3,4) c2 by simp_all
    show ?thesis
      by (rule exI [of _ c'], rule exI [of _ new]) (intro conjI A B C)
  qed
qed

lemma start_canvas_dims:
  "img_width (if a then clearRect 0 0 w h c else if b then drawImage bl s 0 0 (clearRect 0 0 w h c) else c) = img_width c"
  "img_height (if a then clearRect 0 0 w h c else if b then drawImage bl s 0 0 (clearRect 0 0 w h c) else c) = img_height c"
  by simp_all

lemma startPoint_forward:
  "lastRenderedFrame st = Some l \<Longrightarrow> l \<le> t \<Longrightarrow> startPoint st t = (Suc l, None)"
  by (simp add: startPoint_def)

lemma disposePrevious_no_buffer:
  "l < length frames \<Longrightarrow> frame_disposalType (frames ! l) = 3 \<Longrightarrow>
   disposePrevious frames (Suc l) None c = Inr c"
  by (simp add: disposePrevious_def Let_def)

section \<open>Export and playback: auxiliary facts\<close>

lemma clamp_bounds: "mn \<le> mx \<Longrightarrow> mn \<le> clamp v mn mx \<and> clamp v mn mx \<le> mx"
  by (simp add: clamp_def)

lemma length_spec_composite [simp]: "length (spec_composite bl prior fs c s) = length fs"
  by (induction fs arbitrary: prior c s) (simp_all add: Let_def)


lemma disposePrevious_dims:
  "disposePrevious frames i prev c = Inr c1 \<Longrightarrow> img_width c1 = img_width c \<and> img_height c1 = img_height c"
  by (auto simp: disposePrevious_def Let_def split: if_splits)

lemma drawPatch_dims:
  "drawPatch bl f c = Inr c2 \<Longrightarrow> img_width c2 = img_width c \<and> img_height c2 = img_height c"
  by (auto simp: drawPatch_def split: sum.splits)

lemma createImageBitmap_dims:
  "createImageBitmap c = Inr b \<Longrightarrow> img_width b = img_width c \<and> img_height b = img_height c"
  by (auto simp: createImageBitmap_def split: if_splits)

lemma generateCompositedFrames_loop_dims:
  "generateCompositedFrames_loop bl frames w h i c prev acc = Inr out \<Longrightarrow>
   img_width c = W \<Longrightarrow> img_height c = H \<Longrightarrow>
   list_all (\<lambda>b. img_width b = W \<and> img_height b = H) acc \<Longrightarrow>
   list_all (\<lambda>b. img_width b = W \<and> img_height b = H) out"
proof (induction "length frames - i" arbitrary: i c prev acc)
  case 0
  then show ?case by (simp add: generateCompositedFrames_loop.simps)
next
  case (Suc n)
  then have lt: "i < length frames" by simp
  from Suc.prems(1) obtain c1 prev' c2 b where
    d: "disposePrevious frames i prev c = Inr c1"
    and p: "drawPatch bl (frames ! i) c1 = Inr c2"
    and cb: "createImageBitmap c2 = Inr b"
    and r: "generateCompositedFrames_loop bl frames w h (Suc i) c2 prev' (acc @ [b]) = Inr out"
    by (subst (asm) generateCompositedFrames_loop.simps)
       (auto simp: lt Let_def split: sum.splits)
  have c2: "img_width c2 = W" "img_height c2 = H"
    using disposePrevious_dims [OF d] drawPatch_dims [OF p] Suc.prems(2,3) by simp_all
  have b: "img_width b = W" "img_height b = H"
    using createImageBitmap_dims [OF cb] c2 by simp_all
  have n: "n = length frames - Suc i" using Suc.hyps(2) by simp
  show ?case
    using Suc.hyps(1) [OF n r c2] Suc.prems(4) b by simp
qed

lemma handleExport_call_clamped:
  assumes "0 < gif_width gd" "0 < gif_height gd"
  shows "\<exists>c. handleExport_call (Some gd) False tr applied completed = Some c
       \<and> call_frames c = slice_list (gif_frames gd) (fst tr) (snd tr + 1)
       \<and> callValid (gif_width gd) (gif_height gd) c"
proof -
  let ?w = "int (gif_width gd)" and ?h = "int (gif_height gd)"
  have w: "0 \<le> ?w - 1" and h: "0 \<le> ?h - 1" using assms by simp_all
  {
    fix e :: pixelCrop
    define X where "X = clamp (mathRound (crop_x e)) 0 (?w - 1)"
    define Y where "Y = clamp (mathRound (crop_y e)) 0 (?h - 1)"
    define W where "W = clamp (mathRound (crop_width e)) 1 (?w - X)"
    define H where "H = clamp (mathRound (crop_height e)) 1 (?h - Y)"
    have X: "0 \<le> X \<and> X \<le> ?w - 1" unfolding X_def using w by (rule clamp_bounds)
    have Y: "0 \<le> Y \<and> Y \<le> ?h - 1" unfolding Y_def using h by (rule clamp_bounds)
    have W: "1 \<le> W \<and> W \<le> ?w - X" unfolding W_def using X by (intro clamp_bounds) simp
    have H: "1 \<le> H \<and> H \<le> ?h - Y" unfolding H_def using Y by (intro clamp_bounds) simp
    have "callValid (gif_width gd) (gif_height gd)
            \<lparr>call_frames = fs, call_cropX = X, call_cropY = Y, call_cropWidth = W, call_cropHeight = H\<rparr>" for fs
      using X Y W H by (simp add: callValid_def)
  }
  note clamped = this
  have full: "callValid (gif_width gd) (gif_height gd)
            \<lparr>call_frames = fs, call_cropX = 0, call_cropY = 0, call_cropWidth = ?w, call_cropHeight = ?h\<rparr>" for fs
    using assms by (simp add: callValid_def)
  show ?thesis
    using clamped full by (simp add: handleExport_call_def Let_def)
qed

section \<open>Drawing over transparent black, and slices\<close>

lemma flat_mkImage:
  "flat bl (mkImage w h f) \<longleftrightarrow> (\<forall>y<h. \<forall>x<w. bl (f x y) transparent = f x y)"
  by (auto simp: flat_def mkImage_def list_all_iff)

lemma flat_pixelAt:
  assumes "flat bl c" "bl transparent transparent = transparent"
  shows "bl (pixelAt c x y) transparent = pixelAt c x y"
  using assms by (auto simp: flat_def pixelAt_def list_all_length)

lemma flat_createCanvas:
  "bl transparent transparent = transparent \<Longrightarrow> flat bl (createCanvas w h)"
  by (simp add: createCanvas_def flat_mkImage)

lemma flat_clearRect:
  "bl transparent transparent = transparent \<Longrightarrow> flat bl c \<Longrightarrow> flat bl (clearRect x y w h c)"
  by (simp add: clearRect_def flat_mkImage flat_pixelAt)

lemma flat_drawImage:
  assumes "bl transparent transparent = transparent"
    and "\<And>s d. bl d transparent = d \<Longrightarrow> bl (bl s d) transparent = bl s d"
    and "flat bl c"
  shows "flat bl (drawImage bl b dx dy c)"
  using assms by (simp add: drawImage_def flat_mkImage flat_pixelAt)

lemma flat_spec_disposal:
  "bl transparent transparent = transparent \<Longrightarrow> flat bl c \<Longrightarrow>
   (\<And>b. s = Some b \<Longrightarrow> flat bl b) \<Longrightarrow> flat bl (spec_disposal p s c)"
  by (auto simp: spec_disposal_def flat_clearRect split: disposal.splits option.splits)

lemma spec_composite_sized_flat:
  assumes t: "bl transparent transparent = transparent"
    and o: "\<And>s d. bl d transparent = d \<Longrightarrow> bl (bl s d) transparent = bl s d"
  shows "sized w h c \<Longrightarrow> flat bl c \<Longrightarrow> (\<And>b. saved = Some b \<Longrightarrow> sized w h b \<and> flat bl b) \<Longrightarrow>
    list_all (\<lambda>c. sized w h c \<and> flat bl c) (spec_composite bl prior fs c saved)"
proof (induction fs arbitrary: prior c saved)
  case Nil
  then show ?case by simp
next
  case (Cons f fs)
  define c1 where "c1 = (case prior of None \<Rightarrow> c | Some p \<Rightarrow> spec_disposal p saved c)"
  define saved' where "saved' = spec_capture f saved c1"
  define c2 where "c2 = spec_draw bl f c1"
  have c1: "sized w h c1" "flat bl c1"
    using Cons.prems t by (auto simp: c1_def split: option.splits intro: sized_spec_disposal flat_spec_disposal)
  have c2: "sized w h c2" "flat bl c2"
    using c1 t o by (simp_all add: c2_def sized_spec_draw) (simp add: spec_draw_def flat_drawImage)
  have sv: "\<And>b. saved' = Some b \<Longrightarrow> sized w h b \<and> flat bl b"
    using c1 Cons.prems(3) by (auto simp: saved'_def spec_capture_def split: if_splits)
  have "list_all (\<lambda>c. sized w h c \<and> flat bl c) (spec_composite bl (Some f) fs c2 saved')"
    using c2 sv by (rule Cons.IH)
  then show ?case using c2 by (simp add: Let_def c1_def c2_def saved'_def)
qed

lemma spec_crop_full:
  assumes "sized w h c" "flat bl c" "bl transparent transparent = transparent"
  shows "spec_crop bl 0 0 w h c = c"
proof -
  have "spec_crop bl 0 0 w h c = mkImage w h (pixelAt c)"
    unfolding spec_crop_def drawImageCrop_def using assms
    by (auto simp: createCanvas_def sized_def flat_pixelAt intro!: mkImage_cong)
  then show ?thesis using assms(1) mkImage_pixelAt [of c] by (simp add: sized_def)
qed

lemma emitted_full:
  "list_all (\<lambda>c. spec_crop bl x y w h c = c) cs \<Longrightarrow> length cs = length fs \<Longrightarrow>
   map fst (emitted bl x y w h cs fs) = cs"
  by (induction cs fs rule: list_induct2') (simp_all add: emitted_def)

lemma slice_list_nth:
  "a \<le> b \<Longrightarrow> b < length xs \<Longrightarrow> slice_list xs a (b + 1) = xs ! a # slice_list xs (Suc a) (b + 1)"
proof -
  assume "a \<le> b" "b < length xs"
  then have "a < length (take (b + 1) xs)" by simp
  then have "drop a (take (b + 1) xs) = take (b + 1) xs ! a # drop (Suc a) (take (b + 1) xs)"
    by (simp only: Cons_nth_drop_Suc)
  moreover have "take (b + 1) xs ! a = xs ! a" using \<open>a \<le> b\<close> by simp
  ultimately show ?thesis by (simp add: slice_list_def)
qed

lemma slice_list_all: "slice_list xs 0 (Suc (length xs - Suc 0)) = xs"
  by (cases xs) (simp_all add: slice_list_def)

lemma list_all_slice_list: "list_all P xs \<Longrightarrow> list_all P (slice_list xs a b)"
  by (auto simp: slice_list_def list_all_iff dest: in_set_dropD in_set_takeD)

section \<open>The snapshot cache on GIFs without restore-to-previous\<close>

lemma spec_capture_none: "frame_disposalType f \<noteq> 3 \<Longrightarrow> spec_capture f None c = None"
  by (simp add: spec_capture_def disposalOf_def)

lemma spec_composite_nth:
  "noRestorePrevious fs \<Longrightarrow> k < length fs \<Longrightarrow>
   spec_composite bl prior fs c None ! k
     = spec_draw bl (fs ! k)
         (case (if k = 0 then prior else Some (fs ! (k - 1))) of
            None \<Rightarrow> (if k = 0 then c else spec_composite bl prior fs c None ! (k - 1))
          | Some p \<Rightarrow> spec_disposal p None (if k = 0 then c else spec_composite bl prior fs c None ! (k - 1)))"
proof (induction fs arbitrary: prior c k)
  case Nil
  then show ?case by simp
next
  case (Cons f fs)
  have nf: "frame_disposalType f \<noteq> 3" and nfs: "noRestorePrevious fs"
    using Cons.prems(1) by (simp_all add: noRestorePrevious_def)
  show ?case
  proof (cases k)
    case 0
    then show ?thesis by (simp add: Let_def)
  next
    case (Suc j)
    then have j: "j < length fs" using Cons.prems(2) by simp
    define c1 where "c1 = (case prior of None \<Rightarrow> c | Some p \<Rightarrow> spec_disposal p None c)"
    have e: "spec_composite bl prior (f # fs) c None
         = spec_draw bl f c1 # spec_composite bl (Some f) fs (spec_draw bl f c1) None"
      by (simp add: Let_def c1_def spec_capture_none [OF nf])
    show ?thesis
      using Cons.IH [OF nfs j, where prior = "Some f" and c = "spec_draw bl f c1"]
      by (cases j) (simp_all add: e Suc del: spec_composite.simps)
  qed
qed


lemma sequentialComposite_nth:
  assumes "noRestorePrevious (gif_frames data)" "k < length (gif_frames data)"
  shows "sequentialComposite bl data ! k
     = spec_draw bl (gif_frames data ! k)
         (if k = 0 then createCanvas (gif_width data) (gif_height data)
          else spec_disposal (gif_frames data ! (k - 1)) None (sequentialComposite bl data ! (k - 1)))"
  unfolding sequentialComposite_def
  by (subst spec_composite_nth [OF assms]) simp

lemma sequentialComposite_sized_flat:
  assumes "bl transparent transparent = transparent"
    and "\<And>s d. bl d transparent = d \<Longrightarrow> bl (bl s d) transparent = bl s d"
    and "k < length (gif_frames data)"
  shows "sized (gif_width data) (gif_height data) (sequentialComposite bl data ! k)
       \<and> flat bl (sequentialComposite bl data ! k)"
proof -
  have "list_all (\<lambda>c. sized (gif_width data) (gif_height data) c \<and> flat bl c) (sequentialComposite bl data)"
    unfolding sequentialComposite_def using assms(1,2)
    by (intro spec_composite_sized_flat) (simp_all add: flat_createCanvas)
  then show ?thesis using assms(3) by (simp add: list_all_length sequentialComposite_def)
qed

lemma drawImage_full:
  assumes "sized w h s" "flat bl s" "bl transparent transparent = transparent"
  shows "drawImage bl s 0 0 (createCanvas w h) = s"
proof -
  have "drawImage bl s 0 0 (createCanvas w h) = mkImage w h (pixelAt s)"
    unfolding drawImage_def using assms
    by (auto simp: createCanvas_def sized_def inRect_def flat_pixelAt intro!: mkImage_cong)
  then show ?thesis using assms(1) mkImage_pixelAt [of s] by (simp add: sized_def)
qed

lemma closestSnapshot_fold:
  "fold (\<lambda>(frameIdx, _) closestFrame.
             if frameIdx \<le> t \<and> (case closestFrame of None \<Rightarrow> True | Some c \<Rightarrow> frameIdx > c)
             then Some frameIdx else closestFrame) snaps acc = Some k \<Longrightarrow>
   acc = Some k \<or> (k \<le> t \<and> k \<in> fst ` set snaps)"
  by (induction snaps arbitrary: acc) (auto split: if_splits prod.splits)

lemma closestSnapshot_Some:
  "closestSnapshot snaps t = Some k \<Longrightarrow> k \<le> t \<and> k \<in> fst ` set snaps"
  unfolding closestSnapshot_def by (drule closestSnapshot_fold) simp

lemma renderToFrame_loop_sequential:
  assumes valid: "list_all validFrame (gif_frames data)"
    and pos: "0 < gif_width data" "0 < gif_height data"
    and nr: "noRestorePrevious (gif_frames data)"
    and t: "t < length (gif_frames data)"
  shows "(if i = 0 then c = createCanvas (gif_width data) (gif_height data)
          else i \<le> Suc t \<and> c = sequentialComposite bl data ! (i - 1)) \<Longrightarrow>
    sized (gif_width data) (gif_height data) c \<Longrightarrow>
    list_all (\<lambda>(k, s). k < length (gif_frames data) \<and> s = sequentialComposite bl data ! k) snaps \<Longrightarrow>
    \<exists>snaps'. renderToFrame_loop bl data t i None c snaps
                = (None, (if i \<le> t then sequentialComposite bl data ! t else c), snaps')
       \<and> list_all (\<lambda>(k, s). k < length (gif_frames data) \<and> s = sequentialComposite bl data ! k) snaps'"
proof (induction "Suc t - i" arbitrary: i c snaps)
  case 0
  then have "t < i" by simp
  then show ?case using 0 by (simp add: renderToFrame_loop_done)
next
  case (Suc n)
  let ?W = "gif_width data" and ?H = "gif_height data" and ?fs = "gif_frames data"
  let ?ok = "list_all (\<lambda>(k, s). k < length ?fs \<and> s = sequentialComposite bl data ! k)"
  from Suc have le: "i \<le> t" by simp
  then have lt: "i < length ?fs" using t by simp
  define f where "f = ?fs ! i"
  have vf: "validFrame f" using valid lt by (simp add: f_def list_all_length)
  have n3: "frame_disposalType f \<noteq> 3" using nr lt by (simp add: f_def noRestorePrevious_def list_all_length)
  define c1 where "c1 = (if i = 0 then c else spec_disposal (?fs ! (i - 1)) None c)"
  have cd: "img_width c = ?W" "img_height c = ?H" using Suc.prems(2) by (simp_all add: sized_def)
  have d: "disposePrevious ?fs i None c = Inr c1"
  proof (cases "i = 0")
    case True
    then show ?thesis by (simp add: c1_def disposePrevious_first)
  next
    case False
    then show ?thesis
      using disposePrevious_spec [of i ?fs c ?W ?H None] lt cd by (simp add: c1_def)
  qed
  have s1: "sized ?W ?H c1"
    using Suc.prems(2) by (auto simp: c1_def intro: sized_spec_disposal)
  have s: "saveState f ?W ?H None c1 = Inr None"
    using n3 by (simp add: saveState_def)
  define c2 where "c2 = spec_draw bl f c1"
  have p: "drawPatch bl f c1 = Inr c2" using vf by (simp add: c2_def drawPatch_valid)
  have s2: "sized ?W ?H c2" using s1 by (simp add: c2_def sized_spec_draw)
  have b: "createImageBitmap c2 = Inr c2" using s2 pos by (rule createImageBitmap_sized)
  have c2eq: "c2 = sequentialComposite bl data ! i"
    using Suc.prems(1) by (simp add: sequentialComposite_nth [OF nr lt] c2_def c1_def f_def)
  have n: "n = Suc t - Suc i" using Suc.hyps(2) by simp
  have pre: "(if Suc i = 0 then c2 = createCanvas ?W ?H
          else Suc i \<le> Suc t \<and> c2 = sequentialComposite bl data ! (Suc i - 1))"
    using le c2eq by simp
  have res: "(if Suc i \<le> t then sequentialComposite bl data ! t else c2) = sequentialComposite bl data ! t"
    using le c2eq by (cases "i = t") auto
  show ?case
  proof (cases "i mod 10 = 0 \<and> \<not> hasSnapshot snaps i")
    case True
    have ok': "?ok (snaps @ [(i, c2)])" using Suc.prems(3) lt c2eq by simp
    obtain snaps' where IH:
      "renderToFrame_loop bl data t (Suc i) None c2 (snaps @ [(i, c2)])
         = (None, sequentialComposite bl data ! t, snaps')" "?ok snaps'"
      using Suc.hyps(1) [OF n pre s2 ok'] res by auto
    have "renderToFrame_loop bl data t i None c snaps = (None, sequentialComposite bl data ! t, snaps')"
      by (subst renderToFrame_loop.simps)
         (simp add: le lt d s p b True f_def [symmetric] Let_def IH(1))
    then show ?thesis using IH(2) le by auto
  next
    case False
    obtain snaps' where IH:
      "renderToFrame_loop bl data t (Suc i) None c2 snaps
         = (None, sequentialComposite bl data ! t, snaps')" "?ok snaps'"
      using Suc.hyps(1) [OF n pre s2 Suc.prems(3)] res by auto
    have "renderToFrame_loop bl data t i None c snaps = (None, sequentialComposite bl data ! t, snaps')"
      using False
      by (subst renderToFrame_loop.simps)
         (auto simp add: le lt d s p f_def [symmetric] Let_def IH(1))
    then show ?thesis using IH(2) le by auto
  qed
qed


lemma renderToFrame_unfold:
  assumes "startPoint st t = (sf, rs)"
    and "c0 = (if sf = 0 then clearRect 0 0 (gif_width data) (gif_height data) (compositionCanvas st)
               else if rs \<noteq> None
               then drawImage bl (the rs) 0 0
                      (clearRect 0 0 (gif_width data) (gif_height data) (compositionCanvas st))
               else compositionCanvas st)"
    and "renderToFrame_loop bl data t sf None c0 (snapshots st) = (None, c', snaps')"
    and "createImageBitmap c' = Inr sn"
  shows "renderToFrame bl t data st
     = (None, st\<lparr>compositionCanvas := c', snapshots := snaps',
                 lastRenderedFrame := Some t, stageImage := Some sn\<rparr>)"
  using assms by (simp add: renderToFrame_def Let_def)

lemma map_of_snapshot:
  assumes "k \<in> fst ` set snaps"
    and "list_all (\<lambda>(k, s). k < n \<and> s = cs ! k) snaps"
  shows "map_of snaps k = Some (cs ! k) \<and> k < n"
proof -
  from assms(1) obtain s where "map_of snaps k = Some s"
    by (metis domD dom_map_of_conv_image_fst)
  moreover from this have "(k, s) \<in> set snaps" by (rule map_of_SomeD)
  ultimately show ?thesis using assms(2) by (auto simp: list_all_iff)
qed

lemma renderToFrame_sequential:
  assumes valid: "list_all validFrame (gif_frames data)"
    and pos: "0 < gif_width data" "0 < gif_height data"
    and nr: "noRestorePrevious (gif_frames data)"
    and t: "t < length (gif_frames data)"
    and bt: "bl transparent transparent = transparent"
    and bo: "\<And>s d. bl d transparent = d \<Longrightarrow> bl (bl s d) transparent = bl s d"
    and inv: "cacheInv bl data st"
  shows "\<exists>st'. renderToFrame bl t data st = (None, st') \<and> cacheInv bl data st'
       \<and> compositionCanvas st' = sequentialComposite bl data ! t"
proof -
  let ?W = "gif_width data" and ?H = "gif_height data" and ?fs = "gif_frames data"
  let ?comp = "sequentialComposite bl data"
  let ?ok = "list_all (\<lambda>(k, s). k < length ?fs \<and> s = ?comp ! k)"
  have cs: "sized ?W ?H (compositionCanvas st)" and ok: "?ok (snapshots st)"
    using inv by (simp_all add: cacheInv_def)
  have cd: "img_width (compositionCanvas st) = ?W" "img_height (compositionCanvas st) = ?H"
    using cs by (simp_all add: sized_def)
  have clr: "clearRect 0 0 ?W ?H (compositionCanvas st) = createCanvas ?W ?H"
    using cd by (rule clearRect_all)
  have sf: "\<And>k. k < length ?fs \<Longrightarrow> sized ?W ?H (?comp ! k) \<and> flat bl (?comp ! k)"
    using bt bo by (rule sequentialComposite_sized_flat)
  obtain sf rs where sp: "startPoint st t = (sf, rs)" by (cases "startPoint st t")
  define c0 where "c0 = (if sf = 0 then clearRect 0 0 ?W ?H (compositionCanvas st)
               else if rs \<noteq> None
               then drawImage bl (the rs) 0 0 (clearRect 0 0 ?W ?H (compositionCanvas st))
               else compositionCanvas st)"
  have start: "(if sf = 0 then c0 = createCanvas ?W ?H else sf \<le> Suc t \<and> c0 = ?comp ! (sf - 1))
       \<and> sized ?W ?H c0"
  proof (cases "lastRenderedFrame st \<noteq> None \<and> t \<ge> the (lastRenderedFrame st)")
    case True
    then obtain l where l: "lastRenderedFrame st = Some l" "l \<le> t" by auto
    then have "sf = Suc l" "rs = None" using sp by (simp_all add: startPoint_forward)
    moreover have "compositionCanvas st = ?comp ! l"
      using inv l by (simp add: cacheInv_def)
    ultimately show ?thesis using l cs by (simp add: c0_def)
  next
    case False
    show ?thesis
    proof (cases "closestSnapshot (snapshots st) t")
      case None
      then have "sf = 0" using sp False by (auto simp: startPoint_def)
      then show ?thesis by (simp add: c0_def clr)
    next
      case (Some k)
      then have sfk: "sf = Suc k" "rs = map_of (snapshots st) k"
        using sp False by (auto simp: startPoint_def)
      have k: "k \<le> t" "k \<in> fst ` set (snapshots st)"
        using closestSnapshot_Some [OF Some] by simp_all
      have m: "map_of (snapshots st) k = Some (?comp ! k)" "k < length ?fs"
        using map_of_snapshot [OF k(2) ok] by simp_all
      have "drawImage bl (?comp ! k) 0 0 (createCanvas ?W ?H) = ?comp ! k"
        using sf [OF m(2)] bt by (intro drawImage_full) simp_all
      then show ?thesis using sfk k m sf [OF m(2)] by (simp add: c0_def clr)
    qed
  qed
  then have pre: "(if sf = 0 then c0 = createCanvas ?W ?H else sf \<le> Suc t \<and> c0 = ?comp ! (sf - 1))"
    and c0s: "sized ?W ?H c0" by simp_all
  obtain snaps' where L:
    "renderToFrame_loop bl data t sf None c0 (snapshots st)
       = (None, (if sf \<le> t then ?comp ! t else c0), snaps')" "?ok snaps'"
    using renderToFrame_loop_sequential [OF valid pos nr t pre c0s ok] by blast
  have fin: "(if sf \<le> t then ?comp ! t else c0) = ?comp ! t"
  proof (cases "sf \<le> t")
    case True
    then show ?thesis by simp
  next
    case False
    then have "sf = Suc t" using pre by (auto split: if_splits)
    then show ?thesis using pre by simp
  qed
  have cts: "sized ?W ?H (?comp ! t)" using sf [OF t] by simp
  have b: "createImageBitmap (?comp ! t) = Inr (?comp ! t)"
    using cts pos by (rule createImageBitmap_sized)
  have "renderToFrame bl t data st
     = (None, st\<lparr>compositionCanvas := ?comp ! t, snapshots := snaps',
                 lastRenderedFrame := Some t, stageImage := Some (?comp ! t)\<rparr>)"
    using sp c0_def L(1) [unfolded fin] b by (rule renderToFrame_unfold)
  moreover have "cacheInv bl data (st\<lparr>compositionCanvas := ?comp ! t, snapshots := snaps',
                 lastRenderedFrame := Some t, stageImage := Some (?comp ! t)\<rparr>)"
    using cts t L(2) by (simp add: cacheInv_def)
  ultimately show ?thesis by simp
qed

lemma cacheInv_initial: "cacheInv bl data (initialRenderState data)"
  by (simp add: cacheInv_def initialRenderState_def)

text \<open>Where no frame asks for restore-to-previous, the seek path is deterministic: after
  any sequence of seeks to existing frames, each rendered to completion, the live canvas
  is the frame of the sequential composite at the last index requested.\<close>

lemma seek_cache_deterministic_without_restore_previous:
  assumes "list_all validFrame (gif_frames data)" "0 < gif_width data" "0 < gif_height data"
    and "noRestorePrevious (gif_frames data)"
    and "bl transparent transparent = transparent"
    and "\<forall>s d. bl d transparent = d \<longrightarrow> bl (bl s d) transparent = bl s d"
    and "list_all (\<lambda>t. t < length (gif_frames data)) (ts @ [t])"
  shows "\<exists>st'. renderSeeks bl data (ts @ [t]) (initialRenderState data) = (None, st')
       \<and> generateCompositedFrames bl data = Inr (sequentialComposite bl data)
       \<and> compositionCanvas st' = sequentialComposite bl data ! t"
proof -
  have bo: "\<And>s d. bl d transparent = d \<Longrightarrow> bl (bl s d) transparent = bl s d"
    using assms(6) by blast
  have step: "\<exists>st'. renderToFrame bl u data st = (None, st') \<and> cacheInv bl data st'
       \<and> compositionCanvas st' = sequentialComposite bl data ! u"
    if "cacheInv bl data st" "u < length (gif_frames data)" for st u
    by (rule renderToFrame_sequential [OF assms(1-4) that(2) assms(5) bo that(1)])
  have run: "list_all (\<lambda>t. t < length (gif_frames data)) (us @ [t]) \<Longrightarrow> cacheInv bl data st \<Longrightarrow>
      \<exists>st'. renderSeeks bl data (us @ [t]) st = (None, st')
       \<and> compositionCanvas st' = sequentialComposite bl data ! t" for us st
  proof (induction us arbitrary: st)
    case Nil
    then obtain st' where "renderToFrame bl t data st = (None, st')"
      "compositionCanvas st' = sequentialComposite bl data ! t"
      using step [of st t] by auto
    then show ?case by simp
  next
    case (Cons u us)
    then obtain st1 where s1: "renderToFrame bl u data st = (None, st1)" "cacheInv bl data st1"
      using step [of st u] by auto
    from Cons.IH [OF _ s1(2)] Cons.prems(1) obtain st' where
      "renderSeeks bl data (us @ [t]) st1 = (None, st')"
      "compositionCanvas st' = sequentialComposite bl data ! t" by auto
    then show ?case using s1(1) by simp
  qed
  have g: "generateCompositedFrames bl data = Inr (sequentialComposite bl data)"
    unfolding sequentialComposite_def using assms(1-3) by (rule generateCompositedFrames_spec)
  show ?thesis using run [OF assms(7) cacheInv_initial] g by auto
qed

lemma seek_cache_on_backgroundGif:
  "compositionCanvas (snd (renderSeeks overOpaque backgroundGif [1, 0, 1] (initialRenderState backgroundGif)))
     = \<lparr>img_width = 2, img_height = 1, img_rows = [[transparent, greenPx]]\<rparr>
   \<and> generateCompositedFrames overOpaque backgroundGif
     = Inr [\<lparr>img_width = 2, img_height = 1, img_rows = [[redPx, redPx]]\<rparr>,
            \<lparr>img_width = 2, img_height = 1, img_rows = [[transparent, greenPx]]\<rparr>]
   \<and> compositionCanvas (snd (renderSeeks overOpaque backgroundGif [1, 0] (initialRenderState backgroundGif)))
     = \<lparr>img_width = 2, img_height = 1, img_rows = [[redPx, redPx]]\<rparr>"
  by code_simp

section \<open>The seek queue is single-flight for manual seeks\<close>

text \<open>Every event of the sequencer keeps the invariant of the gate, so at most one render
  started by the seek queue is ever in flight. The renders the playback loop starts are
  not counted by the gate.\<close>

lemma gateInv_processSeekQueue: "gateInv s \<Longrightarrow> gateInv (processSeekQueue s)"
  by (auto simp: gateInv_def gatedInFlight_def processSeekQueue_def split: option.splits)

lemma gateInv_handleSeek: "gateInv s \<Longrightarrow> gateInv (handleSeek index s)"
  unfolding handleSeek_def by (rule gateInv_processSeekQueue) (auto simp: gateInv_def gatedInFlight_def split: if_splits)

lemma gateInv_loop: "gateInv s \<Longrightarrow> gateInv (loop rnd frames deltaTime s)"
  by (auto simp: gateInv_def gatedInFlight_def loop_def Let_def split: if_splits)

lemma gateInv_togglePlay: "gateInv s \<Longrightarrow> gateInv (togglePlay s)"
  by (auto simp: gateInv_def gatedInFlight_def togglePlay_def split: if_splits)

lemma filter_remove_nth:
  "k < length xs \<Longrightarrow>
   length (filter P (take k xs @ drop (k + 1) xs)) + (if P (xs ! k) then 1 else 0) = length (filter P xs)"
proof -
  assume "k < length xs"
  then have "xs = take k xs @ xs ! k # drop (Suc k) xs" by (rule id_take_nth_drop)
  then have "filter P xs = filter P (take k xs) @ filter P [xs ! k] @ filter P (drop (Suc k) xs)"
    by (metis append_Cons append_Nil filter_append)
  then show ?thesis by simp
qed

lemma gateInv_renderSettled: "gateInv s \<Longrightarrow> gateInv (renderSettled k s)"
proof -
  assume inv: "gateInv s"
  show ?thesis
  proof (cases "k < length (inFlight s)")
    case False
    then show ?thesis using inv by (simp add: renderSettled_def)
  next
    case True
    note rm = filter_remove_nth [OF True, of "\<lambda>r. fst r = FromSeekQueue"]
    show ?thesis
    proof (cases "fst (inFlight s ! k) = FromSeekQueue")
      case False
      then show ?thesis using inv rm True
        by (simp add: renderSettled_def gateInv_def gatedInFlight_def Let_def)
    next
      case q: True
      have "gateInv (s\<lparr>inFlight := take k (inFlight s) @ drop (k + 1) (inFlight s), isRendering := False\<rparr>)"
        using inv rm q by (auto simp: gateInv_def gatedInFlight_def split: if_splits)
      then show ?thesis using q True
        by (simp add: renderSettled_def Let_def gateInv_processSeekQueue)
    qed
  qed
qed

lemma seek_queue_single_flight: "gateInv s \<Longrightarrow> gatedInFlight s \<le> 1"
  by (simp add: gateInv_def split: if_splits)

lemma mathRound_of_int: "mathRound (of_int n) = n"
  unfolding mathRound_def by linarith

lemma clampedCrop_whole:
  assumes "cropValid w h e" "wholeCrop e"
  shows "clampedCrop w h e = (\<lfloor>crop_x e\<rfloor>, \<lfloor>crop_y e\<rfloor>, \<lfloor>crop_width e\<rfloor>, \<lfloor>crop_height e\<rfloor>)"
proof -
  define X Y W H where "X = \<lfloor>crop_x e\<rfloor>" and "Y = \<lfloor>crop_y e\<rfloor>" and "W = \<lfloor>crop_width e\<rfloor>"
    and "H = \<lfloor>crop_height e\<rfloor>"
  have e: "crop_x e = of_int X" "crop_y e = of_int Y" "crop_width e = of_int W" "crop_height e = of_int H"
    using assms(2) by (auto simp: wholeCrop_def X_def Y_def W_def H_def)
  have b1: "0 \<le> X" "0 \<le> Y" "1 \<le> W" "1 \<le> H"
    using assms(1) unfolding cropValid_def e by simp_all
  have "(of_int X + of_int W :: rat) \<le> of_nat w" "(of_int Y + of_int H :: rat) \<le> of_nat h"
    using assms(1) unfolding cropValid_def e by simp_all
  then have b2: "X + W \<le> int w" "Y + H \<le> int h"
    by (metis of_int_add of_int_le_iff of_int_of_nat_eq)+
  note b = b1 b2
  have r: "mathRound (crop_x e) = X" "mathRound (crop_y e) = Y" "mathRound (crop_width e) = W"
    "mathRound (crop_height e) = H"
    by (simp_all add: e mathRound_of_int)
  show ?thesis
    using b by (simp add: clampedCrop_def r clamp_def Let_def flip: X_def Y_def W_def H_def)
qed

section \<open>The sizes that follow from the first frame\<close>

text \<open>\<^verbatim>\<open>parseGifFile\<close> reports the size of the first frame's patch as the size of the
  animation; the logical screen size of the container plays no part. The composition
  canvas of the editor, each canvas of the sequential composite, the rectangle of an export
  without crop, the compositing canvas of an export whose trim range starts at frame 0, and
  the thumbnail width follow from it.\<close>

lemma canvas_size_from_first_frame:
  "parseGifFile (g\<lparr>lsd_width := a, lsd_height := b\<rparr>) = parseGifFile g
   \<and> (parseGifFile g = Inr gd \<longrightarrow>
        gif_frames gd = decompressedFrames g
      \<and> gif_width gd = dims_width (frame_dims (decompressedFrames g ! 0))
      \<and> gif_height gd = dims_height (frame_dims (decompressedFrames g ! 0))
      \<and> img_width (compositionCanvas (initialRenderState gd)) = dims_width (frame_dims (decompressedFrames g ! 0))
      \<and> img_height (compositionCanvas (initialRenderState gd)) = dims_height (frame_dims (decompressedFrames g ! 0))
      \<and> (\<forall>out. generateCompositedFrames bl gd = Inr out \<longrightarrow>
            list_all (\<lambda>c. img_width c = dims_width (frame_dims (decompressedFrames g ! 0))
                        \<and> img_height c = dims_height (frame_dims (decompressedFrames g ! 0))) out)
      \<and> handleExport_call (Some gd) False tr None None
          = Some \<lparr>call_frames = slice_list (decompressedFrames g) (fst tr) (snd tr + 1),
                   call_cropX = 0, call_cropY = 0,
                   call_cropWidth = int (dims_width (frame_dims (decompressedFrames g ! 0))),
                   call_cropHeight = int (dims_height (frame_dims (decompressedFrames g ! 0)))\<rparr>
      \<and> img_width (cropGif_tempCanvas (slice_list (gif_frames gd) 0 (e + 1)))
          = dims_width (frame_dims (decompressedFrames g ! 0))
      \<and> img_height (cropGif_tempCanvas (slice_list (gif_frames gd) 0 (e + 1)))
          = dims_height (frame_dims (decompressedFrames g ! 0))
      \<and> thumbnailWidth rnd gd 60
          = \<lfloor>rnd (of_nat (dims_width (frame_dims (decompressedFrames g ! 0)))
                  * rnd (60 / of_nat (dims_height (frame_dims (decompressedFrames g ! 0)))))\<rfloor>)"
proof -
  have indep: "parseGifFile (g\<lparr>lsd_width := a, lsd_height := b\<rparr>) = parseGifFile g"
    by (simp add: parseGifFile_def)
  {
    assume P: "parseGifFile g = Inr gd"
    let ?w = "dims_width (frame_dims (decompressedFrames g ! 0))"
    let ?h = "dims_height (frame_dims (decompressedFrames g ! 0))"
    from P have f: "gif_frames gd = decompressedFrames g" and w: "gif_width gd = ?w" and h: "gif_height gd = ?h"
      and ne: "decompressedFrames g \<noteq> []"
      by (auto simp: parseGifFile_def Let_def split: if_splits sum.splits)
    from ne obtain f0 fs where fs: "decompressedFrames g = f0 # fs" by (cases "decompressedFrames g") auto
    have tc: "img_width (cropGif_tempCanvas (slice_list (gif_frames gd) 0 (e + 1))) = ?w"
      "img_height (cropGif_tempCanvas (slice_list (gif_frames gd) 0 (e + 1))) = ?h"
      by (simp_all add: f fs cropGif_tempCanvas_def slice_list_def)
    have comp: "list_all (\<lambda>c. img_width c = ?w \<and> img_height c = ?h) out"
      if "generateCompositedFrames bl gd = Inr out" for out
      using that unfolding generateCompositedFrames_def
      by (rule generateCompositedFrames_loop_dims) (simp_all add: w h)
    have "gif_frames gd = decompressedFrames g \<and> gif_width gd = ?w \<and> gif_height gd = ?h
      \<and> img_width (compositionCanvas (initialRenderState gd)) = ?w
      \<and> img_height (compositionCanvas (initialRenderState gd)) = ?h
      \<and> (\<forall>out. generateCompositedFrames bl gd = Inr out \<longrightarrow>
            list_all (\<lambda>c. img_width c = ?w \<and> img_height c = ?h) out)
      \<and> handleExport_call (Some gd) False tr None None
          = Some \<lparr>call_frames = slice_list (decompressedFrames g) (fst tr) (snd tr + 1),
                   call_cropX = 0, call_cropY = 0, call_cropWidth = int ?w, call_cropHeight = int ?h\<rparr>
      \<and> img_width (cropGif_tempCanvas (slice_list (gif_frames gd) 0 (e + 1))) = ?w
      \<and> img_height (cropGif_tempCanvas (slice_list (gif_frames gd) 0 (e + 1))) = ?h
      \<and> thumbnailWidth rnd gd 60 = \<lfloor>rnd (of_nat ?w * rnd (60 / of_nat ?h))\<rfloor>"
      using comp tc
      by (simp add: f w h initialRenderState_def handleExport_call_def thumbnailWidth_def)
  }
  with indep show ?thesis by blast
qed

lemma canvas_size_from_first_frame_example:
  "lsd_width smallFirstFrameGif = 4 \<and> lsd_height smallFirstFrameGif = 4
   \<and> parseGifFile smallFirstFrameGif = Inr restoreGif
   \<and> gif_width restoreGif = 2 \<and> gif_height restoreGif = 1
   \<and> handleExport_call (Some restoreGif) False (0, 1) None None
       = Some \<lparr>call_frames = restoreFrames, call_cropX = 0, call_cropY = 0,
                call_cropWidth = 2, call_cropHeight = 1\<rparr>
   \<and> thumbnailWidth exactRound restoreGif 60 = 120"
proof -
  have p: "parseGifFile smallFirstFrameGif = Inr restoreGif" by code_simp
  have l: "lsd_width smallFirstFrameGif = 4" "lsd_height smallFirstFrameGif = 4" by code_simp+
  have d: "decompressedFrames smallFirstFrameGif = restoreFrames" by code_simp
  have w: "dims_width (frame_dims (restoreFrames ! 0)) = 2" "dims_height (frame_dims (restoreFrames ! 0)) = 1"
    by code_simp+
  have sl: "slice_list restoreFrames 0 (Suc (Suc 0)) = restoreFrames" by code_simp
  from canvas_size_from_first_frame [where g = smallFirstFrameGif and a = 4 and b = 4 and gd = restoreGif
         and bl = overOpaque and tr = "(0, 1)" and rnd = exactRound and e = 1] p l
  show ?thesis by (simp add: d w sl exactRound_def)
qed

section \<open>Claims\<close>

text \<open>C2. For every frame index \<open>i\<close> the compositor works in a strict order: the disposal of
  frame \<open>i - 1\<close> is applied first (nothing for no disposal, a clear of that frame's
  rectangle for restore-to-background, the saved buffer in place of the whole canvas for
  restore-to-previous), then the canvas is captured when frame \<open>i\<close> itself asks to be
  restored, and only then the patch of frame \<open>i\<close> is drawn; frame 0 has no disposal step.
  Both \<^verbatim>\<open>generateCompositedFrames\<close> and \<^verbatim>\<open>cropGif\<close> compute exactly the sequence of
  canvases of \<open>spec_composite\<close>, which performs these steps in this order starting with no
  prior frame.\<close>

theorem compositor_step_order:
  assumes "list_all validFrame (gif_frames gd)" "0 < gif_width gd" "0 < gif_height gd"
  shows "generateCompositedFrames bl gd
           = Inr (spec_composite bl None (gif_frames gd)
                    (createCanvas (gif_width gd) (gif_height gd)) None)
       \<and> cropGif bl (gif_frames gd) X Y W H
           = Inr (emitted bl X Y W H
                    (spec_composite bl None (gif_frames gd)
                       (createCanvas (dims_width (frame_dims (gif_frames gd ! 0)))
                          (dims_height (frame_dims (gif_frames gd ! 0)))) None)
                    (gif_frames gd))"
  using generateCompositedFrames_spec [OF assms] cropGif_spec [OF assms(1)] by simp

theorem compositor_step_order_witness:
  "list_all validFrame (gif_frames restoreGif) \<and> 0 < gif_width restoreGif \<and> 0 < gif_height restoreGif
   \<and> generateCompositedFrames overOpaque restoreGif
       = Inr (spec_composite overOpaque None (gif_frames restoreGif) (createCanvas 2 1) None)
   \<and> spec_composite overOpaque None (gif_frames restoreGif) (createCanvas 2 1) None
       = [\<lparr>img_width = 2, img_height = 1, img_rows = [[redPx, redPx]]\<rparr>,
          \<lparr>img_width = 2, img_height = 1, img_rows = [[greenPx, transparent]]\<rparr>]
   \<and> cropGif overOpaque (gif_frames restoreGif) 1 0 1 1
       = Inr [(\<lparr>img_width = 1, img_height = 1, img_rows = [[redPx]]\<rparr>, 0),
              (\<lparr>img_width = 1, img_height = 1, img_rows = [[transparent]]\<rparr>, 50)]"
proof -
  have h1: "list_all validFrame (gif_frames restoreGif)" by code_simp
  have h2: "0 < gif_width restoreGif" by code_simp
  have h3: "0 < gif_height restoreGif" by code_simp
  have w: "gif_width restoreGif = 2" "gif_height restoreGif = 1" by code_simp+
  have e: "spec_composite overOpaque None (gif_frames restoreGif) (createCanvas 2 1) None
       = [\<lparr>img_width = 2, img_height = 1, img_rows = [[redPx, redPx]]\<rparr>,
          \<lparr>img_width = 2, img_height = 1, img_rows = [[greenPx, transparent]]\<rparr>]" by code_simp
  have c: "cropGif overOpaque (gif_frames restoreGif) 1 0 1 1
       = Inr [(\<lparr>img_width = 1, img_height = 1, img_rows = [[redPx]]\<rparr>, 0),
              (\<lparr>img_width = 1, img_height = 1, img_rows = [[transparent]]\<rparr>, 50)]" by code_simp
  from compositor_step_order [OF h1 h2 h3, of overOpaque 1 0 1 1] h1 h2 h3 e c show ?thesis
    by (simp add: w)
qed

text \<open>C3, as amended. A call of \<^verbatim>\<open>renderToFrame\<close> with target \<open>t\<close> on valid frames returns
  normally, keeps every snapshot it found, and adds one snapshot for each index that it
  replays (from its start frame up to \<open>t\<close>) which is a multiple of 10 and has no snapshot
  yet: snapshots are taken inside the render loop, for every tenth frame passed, not only
  for the target.\<close>

theorem snapshots_added_during_replay:
  assumes "list_all validFrame (gif_frames data)" "0 < gif_width data" "0 < gif_height data"
    and "t < length (gif_frames data)"
    and "0 < img_width (compositionCanvas st)" "0 < img_height (compositionCanvas st)"
  shows "\<exists>new. fst (renderToFrame bl t data st) = None
       \<and> snapshots (snd (renderToFrame bl t data st)) = snapshots st @ new
       \<and> map fst new = filter (\<lambda>i. i mod 10 = 0 \<and> \<not> hasSnapshot (snapshots st) i)
                          [fst (startPoint st t)..<Suc t]"
proof -
  obtain startFrame restoreSnapshot where sp: "startPoint st t = (startFrame, restoreSnapshot)"
    by (cases "startPoint st t")
  define c0 where "c0 = (if startFrame = 0 then clearRect 0 0 (gif_width data) (gif_height data) (compositionCanvas st)
                else if restoreSnapshot \<noteq> None
                then drawImage bl (the restoreSnapshot) 0 0
                       (clearRect 0 0 (gif_width data) (gif_height data) (compositionCanvas st))
                else compositionCanvas st)"
  have c0: "0 < img_width c0" "0 < img_height c0"
    using assms(5,6) by (simp_all add: c0_def)
  obtain c' new where L: "renderToFrame_loop bl data t startFrame None c0 (snapshots st) = (None, c', snapshots st @ new)"
    "map fst new = filter (\<lambda>j. j mod 10 = 0 \<and> \<not> hasSnapshot (snapshots st) j) [startFrame..<Suc t]"
    "img_width c' = img_width c0" "img_height c' = img_height c0"
    using renderToFrame_loop_snapshots [OF assms(1-4) c0, of bl startFrame None "snapshots st"] by blast
  obtain sn where b: "createImageBitmap c' = Inr sn"
    using createImageBitmap_ok [of c'] c0 L(3,4) by auto
  have "renderToFrame bl t data st
      = (None, st\<lparr>compositionCanvas := c', snapshots := snapshots st @ new,
                  lastRenderedFrame := Some t, stageImage := Some sn\<rparr>)"
    by (simp add: renderToFrame_def sp Let_def c0_def [symmetric] L(1) b)
  then show ?thesis using L(2) sp by simp
qed

theorem snapshots_added_during_replay_witness:
  "list_all validFrame (gif_frames restoreGif) \<and> 0 < gif_width restoreGif \<and> 0 < gif_height restoreGif
   \<and> 1 < length (gif_frames restoreGif)
   \<and> 0 < img_width (compositionCanvas (initialRenderState restoreGif))
   \<and> 0 < img_height (compositionCanvas (initialRenderState restoreGif))
   \<and> (\<exists>new. fst (renderToFrame overOpaque 1 restoreGif (initialRenderState restoreGif)) = None
       \<and> snapshots (snd (renderToFrame overOpaque 1 restoreGif (initialRenderState restoreGif)))
           = snapshots (initialRenderState restoreGif) @ new
       \<and> map fst new = [0])"
proof -
  have h1: "list_all validFrame (gif_frames restoreGif)" by code_simp
  have h2: "0 < gif_width restoreGif" by code_simp
  have h3: "0 < gif_height restoreGif" by code_simp
  have h4: "1 < length (gif_frames restoreGif)" by code_simp
  have h5: "0 < img_width (compositionCanvas (initialRenderState restoreGif))" by code_simp
  have h6: "0 < img_height (compositionCanvas (initialRenderState restoreGif))" by code_simp
  have e: "filter (\<lambda>i. i mod 10 = 0 \<and> \<not> hasSnapshot (snapshots (initialRenderState restoreGif)) i)
                          [fst (startPoint (initialRenderState restoreGif) 1)..<Suc 1] = [0]" by code_simp
  from snapshots_added_during_replay [OF h1 h2 h3 h4 h5 h6, of overOpaque] h1 h2 h3 h4 h5 h6
  show ?thesis unfolding e by simp
qed

text \<open>C3 as stated fails: on a fresh cache a seek to frame 1 stores a snapshot, although 1 is
  not a multiple of 10, and the snapshot is the one of frame 0, not of the target.\<close>

theorem snapshot_only_at_target_counterexample:
  "snapshots (initialRenderState restoreGif) = []
   \<and> fst (renderToFrame overOpaque 1 restoreGif (initialRenderState restoreGif)) = None
   \<and> map fst (snapshots (snd (renderToFrame overOpaque 1 restoreGif (initialRenderState restoreGif)))) = [0]
   \<and> (1::nat) mod 10 \<noteq> 0"
  by code_simp

text \<open>C1. The canvas the seek path produces is not always the sequential composite. In the
  2 x 1 animation \<open>restoreGif\<close> frame 0 asks to be restored: the sequential composite of
  frame 1 is the green pixel on the empty canvas. \<^verbatim>\<open>renderToFrame\<close> keeps the buffer saved
  for restoring in a variable local to one call, so a seek to frame 0 followed by a seek to
  frame 1 continues from the live canvas without that buffer and leaves the red pixel of
  frame 0 in place; a single seek to frame 1 gives the sequential composite.\<close>

theorem seek_cache_diverges_from_sequential_composite:
  "generateCompositedFrames overOpaque restoreGif
     = Inr [\<lparr>img_width = 2, img_height = 1, img_rows = [[redPx, redPx]]\<rparr>,
            \<lparr>img_width = 2, img_height = 1, img_rows = [[greenPx, transparent]]\<rparr>]
   \<and> fst (renderSeeks overOpaque restoreGif [0, 1] (initialRenderState restoreGif)) = None
   \<and> compositionCanvas (snd (renderSeeks overOpaque restoreGif [0, 1] (initialRenderState restoreGif)))
       = \<lparr>img_width = 2, img_height = 1, img_rows = [[greenPx, redPx]]\<rparr>
   \<and> compositionCanvas (snd (renderSeeks overOpaque restoreGif [0, 1] (initialRenderState restoreGif)))
       \<noteq> \<lparr>img_width = 2, img_height = 1, img_rows = [[greenPx, transparent]]\<rparr>
   \<and> compositionCanvas (snd (renderSeeks overOpaque restoreGif [1] (initialRenderState restoreGif)))
       = \<lparr>img_width = 2, img_height = 1, img_rows = [[greenPx, transparent]]\<rparr>"
  by code_simp

text \<open>C8. When the frame before the one being drawn asks for restore-to-previous and no
  buffer has been saved, the disposal step leaves the canvas as it is and compositing goes
  on: \<^verbatim>\<open>renderToFrame\<close>, continuing from a rendered frame \<open>l\<close> of disposal type 3 (its
  saved buffer is never at hand at the start of a call), returns normally with the patch of
  frame \<open>l + 1\<close> drawn on the unchanged canvas.\<close>

theorem restore_without_history_is_noop:
  assumes "lastRenderedFrame st = Some l" "Suc l < length (gif_frames data)"
    and "frame_disposalType (gif_frames data ! l) = 3"
    and "validFrame (gif_frames data ! Suc l)" "0 < gif_width data" "0 < gif_height data"
    and "0 < img_width (compositionCanvas st)" "0 < img_height (compositionCanvas st)"
  shows "disposePrevious (gif_frames data) (Suc l) None (compositionCanvas st) = Inr (compositionCanvas st)
       \<and> fst (renderToFrame bl (Suc l) data st) = None
       \<and> compositionCanvas (snd (renderToFrame bl (Suc l) data st))
           = spec_draw bl (gif_frames data ! Suc l) (compositionCanvas st)"
proof -
  let ?c = "compositionCanvas st"
  let ?f = "gif_frames data ! Suc l"
  have l: "l < length (gif_frames data)" using assms(2) by simp
  have d: "disposePrevious (gif_frames data) (Suc l) None ?c = Inr ?c"
    using l assms(3) by (rule disposePrevious_no_buffer)
  obtain prev' where s: "saveState ?f (gif_width data) (gif_height data) None ?c = Inr prev'"
    using saveState_ok [OF assms(5,6)] by blast
  have p: "drawPatch bl ?f ?c = Inr (spec_draw bl ?f ?c)"
    using assms(4) by (rule drawPatch_valid)
  have pos: "0 < img_width (spec_draw bl ?f ?c)" "0 < img_height (spec_draw bl ?f ?c)"
    using assms(7,8) by (simp_all add: spec_draw_def)
  obtain sn where b: "createImageBitmap (spec_draw bl ?f ?c) = Inr sn"
    using createImageBitmap_ok [OF pos] by blast
  have "\<exists>snaps. renderToFrame_loop bl data (Suc l) (Suc l) None ?c (snapshots st)
           = (None, spec_draw bl ?f ?c, snaps)"
    by (subst renderToFrame_loop.simps)
       (simp add: d assms(2) s p b Let_def renderToFrame_loop_done)
  then obtain snaps where L: "renderToFrame_loop bl data (Suc l) (Suc l) None ?c (snapshots st)
           = (None, spec_draw bl ?f ?c, snaps)" ..
  have "renderToFrame bl (Suc l) data st
      = (None, st\<lparr>compositionCanvas := spec_draw bl ?f ?c, snapshots := snaps,
                  lastRenderedFrame := Some (Suc l), stageImage := Some sn\<rparr>)"
    by (simp add: renderToFrame_def startPoint_forward [OF assms(1)] L b)
  then show ?thesis using d by simp
qed

theorem restore_without_history_is_noop_witness:
  "lastRenderedFrame (snd (renderToFrame overOpaque 0 restoreGif (initialRenderState restoreGif))) = Some 0
   \<and> Suc 0 < length (gif_frames restoreGif)
   \<and> frame_disposalType (gif_frames restoreGif ! 0) = 3
   \<and> validFrame (gif_frames restoreGif ! Suc 0) \<and> 0 < gif_width restoreGif \<and> 0 < gif_height restoreGif
   \<and> 0 < img_width (compositionCanvas
                      (snd (renderToFrame overOpaque 0 restoreGif (initialRenderState restoreGif))))
   \<and> 0 < img_height (compositionCanvas
                       (snd (renderToFrame overOpaque 0 restoreGif (initialRenderState restoreGif))))
   \<and> fst (renderToFrame overOpaque (Suc 0) restoreGif
            (snd (renderToFrame overOpaque 0 restoreGif (initialRenderState restoreGif)))) = None
   \<and> compositionCanvas (snd (renderToFrame overOpaque (Suc 0) restoreGif
            (snd (renderToFrame overOpaque 0 restoreGif (initialRenderState restoreGif)))))
       = spec_draw overOpaque (gif_frames restoreGif ! Suc 0)
           \<lparr>img_width = 2, img_height = 1, img_rows = [[redPx, redPx]]\<rparr>"
proof -
  let ?st = "snd (renderToFrame overOpaque 0 restoreGif (initialRenderState restoreGif))"
  have h1: "lastRenderedFrame ?st = Some 0" by code_simp
  have h2: "Suc 0 < length (gif_frames restoreGif)" by code_simp
  have h3: "frame_disposalType (gif_frames restoreGif ! 0) = 3" by code_simp
  have h4: "validFrame (gif_frames restoreGif ! Suc 0)" by code_simp
  have h5: "0 < gif_width restoreGif" "0 < gif_height restoreGif" by code_simp+
  have h6: "0 < img_width (compositionCanvas ?st)" "0 < img_height (compositionCanvas ?st)" by code_simp+
  have c: "compositionCanvas ?st = \<lparr>img_width = 2, img_height = 1, img_rows = [[redPx, redPx]]\<rparr>"
    by code_simp
  from restore_without_history_is_noop [OF h1 h2 h3 h4 h5 h6, of overOpaque] h1 h2 h3 h4 h5 h6
  show ?thesis by (simp add: c)
qed

text \<open>C4, as amended. \<^verbatim>\<open>handleExport\<close> does not reject an export request for its geometry.
  Whenever a GIF is loaded (its canvas is at least 1 x 1) and no export is running, it
  calls \<^verbatim>\<open>cropGif\<close> on the frames the trim range slices out of the sequence. The rectangle
  it passes on is the requested one (the applied crop, or else the completed crop) rounded
  and clamped value by value, which always lies within the canvas (\<open>x \<ge> 0\<close>, \<open>y \<ge> 0\<close>,
  width and height at least 1, \<open>x + width \<le> canvasWidth\<close>, \<open>y + height \<le> canvasHeight\<close>);
  without a request, or for one of zero width or height, it is the whole canvas. A request
  of whole numbers that satisfies the invariants is passed on as it is.\<close>

theorem export_clamps_geometry:
  assumes "0 < gif_width gd" "0 < gif_height gd"
  shows "(\<exists>c. handleExport_call (Some gd) False tr applied completed = Some c
          \<and> call_frames c = slice_list (gif_frames gd) (fst tr) (snd tr + 1)
          \<and> callValid (gif_width gd) (gif_height gd) c
          \<and> (call_cropX c, call_cropY c, call_cropWidth c, call_cropHeight c)
              = (case (case applied of Some e \<Rightarrow> Some e | None \<Rightarrow> completed) of
                   None \<Rightarrow> (0, 0, int (gif_width gd), int (gif_height gd))
                 | Some e \<Rightarrow>
                     if crop_width e = 0 \<or> crop_height e = 0
                     then (0, 0, int (gif_width gd), int (gif_height gd))
                     else clampedCrop (gif_width gd) (gif_height gd) e))
       \<and> (\<forall>e. cropValid (gif_width gd) (gif_height gd) e \<and> wholeCrop e \<longrightarrow>
              clampedCrop (gif_width gd) (gif_height gd) e
                = (\<lfloor>crop_x e\<rfloor>, \<lfloor>crop_y e\<rfloor>, \<lfloor>crop_width e\<rfloor>, \<lfloor>crop_height e\<rfloor>))"
proof (rule conjI)
  obtain c where c: "handleExport_call (Some gd) False tr applied completed = Some c"
    "call_frames c = slice_list (gif_frames gd) (fst tr) (snd tr + 1)"
    "callValid (gif_width gd) (gif_height gd) c"
    using handleExport_call_clamped [OF assms, of tr applied completed] by blast
  have "(call_cropX c, call_cropY c, call_cropWidth c, call_cropHeight c)
              = (case (case applied of Some e \<Rightarrow> Some e | None \<Rightarrow> completed) of
                   None \<Rightarrow> (0, 0, int (gif_width gd), int (gif_height gd))
                 | Some e \<Rightarrow>
                     if crop_width e = 0 \<or> crop_height e = 0
                     then (0, 0, int (gif_width gd), int (gif_height gd))
                     else clampedCrop (gif_width gd) (gif_height gd) e)"
    using c(1)
    by (auto simp: handleExport_call_def clampedCrop_def Let_def split: option.splits if_splits)
  with c show "\<exists>c. handleExport_call (Some gd) False tr applied completed = Some c
          \<and> call_frames c = slice_list (gif_frames gd) (fst tr) (snd tr + 1)
          \<and> callValid (gif_width gd) (gif_height gd) c
          \<and> (call_cropX c, call_cropY c, call_cropWidth c, call_cropHeight c)
              = (case (case applied of Some e \<Rightarrow> Some e | None \<Rightarrow> completed) of
                   None \<Rightarrow> (0, 0, int (gif_width gd), int (gif_height gd))
                 | Some e \<Rightarrow>
                     if crop_width e = 0 \<or> crop_height e = 0
                     then (0, 0, int (gif_width gd), int (gif_height gd))
                     else clampedCrop (gif_width gd) (gif_height gd) e)"
    by blast
next
  show "\<forall>e. cropValid (gif_width gd) (gif_height gd) e \<and> wholeCrop e \<longrightarrow>
              clampedCrop (gif_width gd) (gif_height gd) e
                = (\<lfloor>crop_x e\<rfloor>, \<lfloor>crop_y e\<rfloor>, \<lfloor>crop_width e\<rfloor>, \<lfloor>crop_height e\<rfloor>)"
    by (intro allI impI, elim conjE) (rule clampedCrop_whole)
qed

theorem export_clamps_geometry_witness:
  "0 < gif_width restoreGif \<and> 0 < gif_height restoreGif
   \<and> (\<exists>c. handleExport_call (Some restoreGif) False (0, 1) None (Some badCrop) = Some c
       \<and> call_frames c = restoreFrames
       \<and> callValid 2 1 c
       \<and> (call_cropX c, call_cropY c, call_cropWidth c, call_cropHeight c) = (0, 0, 2, 1))
   \<and> cropValid 2 1 wholeValidCrop \<and> wholeCrop wholeValidCrop
   \<and> clampedCrop 2 1 wholeValidCrop = (1, 0, 1, 1)"
proof -
  have h1: "0 < gif_width restoreGif" and h2: "0 < gif_height restoreGif" by code_simp+
  have w: "gif_width restoreGif = 2" "gif_height restoreGif = 1" by code_simp+
  have b: "clampedCrop 2 (Suc 0) badCrop = (0, 0, 2, 1)" "crop_width badCrop \<noteq> 0"
    "crop_height badCrop \<noteq> 0"
    "slice_list (gif_frames restoreGif) 0 (Suc (Suc 0)) = restoreFrames"
    by code_simp+
  have v: "cropValid 2 1 wholeValidCrop" "wholeCrop wholeValidCrop" by code_simp+
  have f: "(\<lfloor>crop_x wholeValidCrop\<rfloor>, \<lfloor>crop_y wholeValidCrop\<rfloor>, \<lfloor>crop_width wholeValidCrop\<rfloor>,
            \<lfloor>crop_height wholeValidCrop\<rfloor>) = (1, 0, 1, 1)" by code_simp
  note T = export_clamps_geometry [OF h1 h2, of "(0, 1)" None "Some badCrop"]
  from T have A: "\<exists>c. handleExport_call (Some restoreGif) False (0, 1) None (Some badCrop) = Some c
       \<and> call_frames c = restoreFrames
       \<and> callValid 2 1 c
       \<and> (call_cropX c, call_cropY c, call_cropWidth c, call_cropHeight c) = (0, 0, 2, 1)"
    by (simp add: w b)
  from T v have B: "clampedCrop 2 1 wholeValidCrop = (1, 0, 1, 1)"
    unfolding w f [symmetric] by blast
  show ?thesis by (intro conjI h1 h2 A v B)
qed

text \<open>C4 as stated fails: a crop rectangle that starts left of the canvas and is wider than
  it is exported without any error, with the rectangle clamped to the canvas; the
  stand-alone cropper hands the same rectangle to \<^verbatim>\<open>cropGif\<close> as it is.\<close>

theorem export_rejects_invalid_geometry_counterexample:
  "\<not> cropValid (gif_width restoreGif) (gif_height restoreGif) badCrop
   \<and> trimValid (length (gif_frames restoreGif)) (0, 1)
   \<and> handleExport_call (Some restoreGif) False (0, 1) None (Some badCrop)
       = Some \<lparr>call_frames = restoreFrames, call_cropX = 0, call_cropY = 0,
                call_cropWidth = 2, call_cropHeight = 1\<rparr>
   \<and> handleExport overOpaque (Some restoreGif) False (0, 1) None (Some badCrop)
       = Some (Inr [(\<lparr>img_width = 2, img_height = 1, img_rows = [[redPx, redPx]]\<rparr>, 0),
                    (\<lparr>img_width = 2, img_height = 1, img_rows = [[greenPx, transparent]]\<rparr>, 50)])
   \<and> handleCrop_call (Some restoreGif) (Some badCrop) = Some (restoreFrames, - 5, 0, 9, 1)"
  by code_simp

text \<open>C10. Every manual seek goes through \<^verbatim>\<open>handleSeek\<close>, which stops playback whatever the
  state was: afterwards \<^verbatim>\<open>isPlaying\<close> is false, a run of the playback loop changes nothing,
  and the requested index is either being rendered or waiting in the seek slot.\<close>

theorem manual_seek_stops_playback:
  "isPlaying (handleSeek index s) = False
   \<and> currentFrameIdx (handleSeek index s) = index
   \<and> loop rnd frames deltaTime (handleSeek index s) = handleSeek index s
   \<and> (if isRendering s
       then nextSeekFrame (handleSeek index s) = Some index \<and> inFlight (handleSeek index s) = inFlight s
       else nextSeekFrame (handleSeek index s) = None
            \<and> inFlight (handleSeek index s) = inFlight s @ [(FromSeekQueue, index)])"
  by (simp add: handleSeek_def processSeekQueue_def loop_def)

theorem manual_seek_stops_playback_witness:
  "isPlaying (handleSeek 1 idlePlaying) = False
   \<and> loop exactRound restoreFrames 1000 (handleSeek 1 idlePlaying) = handleSeek 1 idlePlaying
   \<and> inFlight (handleSeek 1 idlePlaying) = [(FromSeekQueue, 1)]"
proof -
  have r: "isRendering idlePlaying = False" "inFlight idlePlaying = []" by (simp_all add: idlePlaying_def)
  from manual_seek_stops_playback [of 1 idlePlaying exactRound restoreFrames 1000]
  show ?thesis by (simp add: r)
qed

text \<open>C5. Renders are not single-flight. The playback loop calls \<^verbatim>\<open>renderToFrame\<close> itself,
  without looking at \<^verbatim>\<open>isRenderingRef\<close>: two ticks of a playing sequencer leave two renders
  in flight with the gate still open, and a manual seek during a playback render starts a
  second render at once. Only manual seeks are coalesced: of three seeks made while the
  first is rendering, the last one alone is rendered afterwards.\<close>

theorem playback_bypasses_single_flight_gate:
  "inFlight (loop exactRound restoreFrames 100 (loop exactRound restoreFrames 100 idlePlaying))
     = [(FromPlaybackLoop, 1), (FromPlaybackLoop, 0)]
   \<and> isRendering (loop exactRound restoreFrames 100 (loop exactRound restoreFrames 100 idlePlaying)) = False
   \<and> inFlight (handleSeek 0 (loop exactRound restoreFrames 100 idlePlaying))
     = [(FromPlaybackLoop, 1), (FromSeekQueue, 0)]
   \<and> inFlight (handleSeek 1 (handleSeek 0 (handleSeek 1 (togglePlay idlePlaying)))) = [(FromSeekQueue, 1)]
   \<and> nextSeekFrame (handleSeek 1 (handleSeek 0 (handleSeek 1 (togglePlay idlePlaying)))) = Some 1
   \<and> inFlight (renderSettled 0 (handleSeek 1 (handleSeek 0 (handleSeek 1 (togglePlay idlePlaying)))))
     = [(FromSeekQueue, 1)]
   \<and> nextSeekFrame (renderSettled 0 (handleSeek 1 (handleSeek 0 (handleSeek 1 (togglePlay idlePlaying)))))
     = None"
  by code_simp



text \<open>C9. \<^verbatim>\<open>parseGifFile\<close> reports the size of the first frame's patch as the size of the
  animation, but not every later compositing canvas has that size. \<^verbatim>\<open>handleExport\<close> hands
  the trimmed frames to \<^verbatim>\<open>cropGif\<close>, which sizes its compositing canvas from the first frame
  it is given. For the 2 x 1 animation \<open>patchGif\<close> and the trim range 1..2 that canvas is
  the 1 x 1 patch of frame 1: the patch of frame 1, placed at \<open>x = 1\<close>, falls outside of it
  and both exported frames lose their right pixel, which a canvas of the size of the
  animation keeps.\<close>

theorem export_canvas_sized_from_slice:
  "parseGifFile patchContainer = Inr patchGif
   \<and> gif_width patchGif = 2 \<and> gif_height patchGif = 1
   \<and> trimValid (length (gif_frames patchGif)) (1, 2)
   \<and> handleExport_call (Some patchGif) False (1, 2) None None
       = Some \<lparr>call_frames = slice_list patchFrames 1 3, call_cropX = 0, call_cropY = 0,
                call_cropWidth = 2, call_cropHeight = 1\<rparr>
   \<and> img_width (cropGif_tempCanvas (slice_list patchFrames 1 3)) = 1
   \<and> img_height (cropGif_tempCanvas (slice_list patchFrames 1 3)) = 1
   \<and> handleExport overOpaque (Some patchGif) False (1, 2) None None
       = Some (Inr [(\<lparr>img_width = 2, img_height = 1, img_rows = [[transparent, transparent]]\<rparr>, 40),
                    (\<lparr>img_width = 2, img_height = 1, img_rows = [[greenPx, transparent]]\<rparr>, 40)])
   \<and> emitted overOpaque 0 0 2 1
         (spec_composite overOpaque None (slice_list patchFrames 1 3) (createCanvas 2 1) None)
         (slice_list patchFrames 1 3)
       = [(\<lparr>img_width = 2, img_height = 1, img_rows = [[transparent, greenPx]]\<rparr>, 40),
          (\<lparr>img_width = 2, img_height = 1, img_rows = [[greenPx, greenPx]]\<rparr>, 40)]"
  by code_simp

text \<open>C7. An export over a trim range \<open>[a, b]\<close> composites the sliced frames alone, on a
  canvas of its own that starts empty, with no frame before the first one of the slice:
  what the encoder receives is the crop of each canvas of that composite, and the first
  canvas is the patch of frame \<open>a\<close> drawn on the empty canvas, with no disposal before it,
  whatever preceded frame \<open>a\<close> in the sequence. Over the full range and without a crop, the
  exported images are the frames of the sequential composite (for a blend that leaves a
  canvas pixel unchanged when it is drawn over transparent black, and a GIF whose size is
  that of its first frame, as \<^verbatim>\<open>parseGifFile\<close> delivers).\<close>

theorem export_slice_has_no_predecessor:
  assumes "list_all validFrame (gif_frames gd)" "0 < gif_width gd" "0 < gif_height gd"
    and "a \<le> b" "b < length (gif_frames gd)"
  shows "(\<exists>call canvas cs.
           handleExport_call (Some gd) False (a, b) applied completed = Some call
         \<and> call_frames call = slice_list (gif_frames gd) a (b + 1)
         \<and> canvas = createCanvas (dims_width (frame_dims (gif_frames gd ! a)))
                      (dims_height (frame_dims (gif_frames gd ! a)))
         \<and> cs = spec_composite bl None (slice_list (gif_frames gd) a (b + 1)) canvas None
         \<and> handleExport bl (Some gd) False (a, b) applied completed
             = Some (Inr (emitted bl (nat (call_cropX call)) (nat (call_cropY call))
                            (nat (call_cropWidth call)) (nat (call_cropHeight call)) cs
                            (slice_list (gif_frames gd) a (b + 1))))
         \<and> hd cs = spec_draw bl (gif_frames gd ! a) canvas)
       \<and> (bl transparent transparent = transparent \<and>
         (\<forall>s d. bl d transparent = d \<longrightarrow> bl (bl s d) transparent = bl s d) \<and>
         gif_width gd = dims_width (frame_dims (gif_frames gd ! 0)) \<and>
         gif_height gd = dims_height (frame_dims (gif_frames gd ! 0)) \<longrightarrow>
         (\<exists>out. handleExport bl (Some gd) False (0, length (gif_frames gd) - 1) None None = Some (Inr out)
              \<and> generateCompositedFrames bl gd = Inr (map fst out)))"
proof (rule conjI)
  let ?fs = "gif_frames gd"
  let ?sl = "slice_list ?fs a (b + 1)"
  obtain call where call: "handleExport_call (Some gd) False (a, b) applied completed = Some call"
    and cf: "call_frames call = ?sl"
    using handleExport_call_clamped [OF assms(2,3), of "(a, b)" applied completed] by auto
  have hd: "?sl = ?fs ! a # slice_list ?fs (Suc a) (b + 1)"
    using assms(4,5) by (rule slice_list_nth)
  then have sl0: "?sl ! 0 = ?fs ! a" by simp
  have vs: "list_all validFrame ?sl" using assms(1) by (rule list_all_slice_list)
  let ?canvas = "createCanvas (dims_width (frame_dims (?fs ! a))) (dims_height (frame_dims (?fs ! a)))"
  let ?cs = "spec_composite bl None ?sl ?canvas None"
  have ex: "handleExport bl (Some gd) False (a, b) applied completed
             = Some (Inr (emitted bl (nat (call_cropX call)) (nat (call_cropY call))
                            (nat (call_cropWidth call)) (nat (call_cropHeight call)) ?cs ?sl))"
    using cropGif_spec [OF vs, of bl "nat (call_cropX call)" "nat (call_cropY call)"
            "nat (call_cropWidth call)" "nat (call_cropHeight call)"] sl0
    by (simp add: handleExport_def call cf)
  have h: "hd ?cs = spec_draw bl (?fs ! a) ?canvas"
    by (subst hd) (simp add: Let_def)
  show "\<exists>call canvas cs.
           handleExport_call (Some gd) False (a, b) applied completed = Some call
         \<and> call_frames call = ?sl
         \<and> canvas = ?canvas
         \<and> cs = spec_composite bl None ?sl canvas None
         \<and> handleExport bl (Some gd) False (a, b) applied completed
             = Some (Inr (emitted bl (nat (call_cropX call)) (nat (call_cropY call))
                            (nat (call_cropWidth call)) (nat (call_cropHeight call)) cs ?sl))
         \<and> hd cs = spec_draw bl (?fs ! a) canvas"
    using call cf ex h by blast
  show "bl transparent transparent = transparent \<and>
         (\<forall>s d. bl d transparent = d \<longrightarrow> bl (bl s d) transparent = bl s d) \<and>
         gif_width gd = dims_width (frame_dims (?fs ! 0)) \<and>
         gif_height gd = dims_height (frame_dims (?fs ! 0)) \<longrightarrow>
         (\<exists>out. handleExport bl (Some gd) False (0, length ?fs - 1) None None = Some (Inr out)
              \<and> generateCompositedFrames bl gd = Inr (map fst out))"
  proof (intro impI, elim conjE)
    assume t: "bl transparent transparent = transparent"
      and o: "\<forall>s d. bl d transparent = d \<longrightarrow> bl (bl s d) transparent = bl s d"
      and w: "gif_width gd = dims_width (frame_dims (?fs ! 0))"
      and hh: "gif_height gd = dims_height (frame_dims (?fs ! 0))"
    let ?w = "gif_width gd" and ?h = "gif_height gd"
    let ?full = "spec_composite bl None ?fs (createCanvas ?w ?h) None"
    have inv: "list_all (\<lambda>c. sized ?w ?h c \<and> flat bl c) ?full"
      using t o by (intro spec_composite_sized_flat) (simp_all add: flat_createCanvas)
    then have fx: "list_all (\<lambda>c. spec_crop bl 0 0 ?w ?h c = c) ?full"
      using t by (auto simp: list_all_iff spec_crop_full)
    have e: "handleExport bl (Some gd) False (0, length ?fs - 1) None None
          = Some (Inr (emitted bl 0 0 ?w ?h ?full ?fs))"
      using cropGif_spec [OF assms(1), of bl 0 0 ?w ?h]
      by (simp add: handleExport_def handleExport_call_def slice_list_all w [symmetric] hh [symmetric])
    have g: "generateCompositedFrames bl gd = Inr ?full"
      using assms(1-3) by (rule generateCompositedFrames_spec)
    have "map fst (emitted bl 0 0 ?w ?h ?full ?fs) = ?full"
      using fx by (rule emitted_full) simp
    then show "\<exists>out. handleExport bl (Some gd) False (0, length ?fs - 1) None None = Some (Inr out)
              \<and> generateCompositedFrames bl gd = Inr (map fst out)"
      using e g by simp
  qed
qed


theorem export_slice_has_no_predecessor_witness:
  "list_all validFrame (gif_frames restoreGif) \<and> 0 < gif_width restoreGif \<and> 0 < gif_height restoreGif
   \<and> (1::nat) \<le> 1 \<and> 1 < length (gif_frames restoreGif)
   \<and> (\<exists>call canvas cs.
           handleExport_call (Some restoreGif) False (1, 1) None None = Some call
         \<and> call_frames call = slice_list (gif_frames restoreGif) 1 (1 + 1)
         \<and> canvas = createCanvas (dims_width (frame_dims (gif_frames restoreGif ! 1)))
                      (dims_height (frame_dims (gif_frames restoreGif ! 1)))
         \<and> cs = spec_composite overOpaque None (slice_list (gif_frames restoreGif) 1 (1 + 1)) canvas None
         \<and> handleExport overOpaque (Some restoreGif) False (1, 1) None None
             = Some (Inr (emitted overOpaque (nat (call_cropX call)) (nat (call_cropY call))
                            (nat (call_cropWidth call)) (nat (call_cropHeight call)) cs
                            (slice_list (gif_frames restoreGif) 1 (1 + 1))))
         \<and> hd cs = spec_draw overOpaque (gif_frames restoreGif ! 1) canvas)
   \<and> handleExport overOpaque (Some restoreGif) False (1, 1) None None
       = Some (Inr [(\<lparr>img_width = 2, img_height = 1, img_rows = [[greenPx, transparent]]\<rparr>, 50)])
   \<and> overOpaque transparent transparent = transparent
   \<and> gif_width restoreGif = dims_width (frame_dims (gif_frames restoreGif ! 0))
   \<and> gif_height restoreGif = dims_height (frame_dims (gif_frames restoreGif ! 0))
   \<and> (\<exists>out. handleExport overOpaque (Some restoreGif) False (0, length (gif_frames restoreGif) - 1) None None
                = Some (Inr out)
            \<and> generateCompositedFrames overOpaque restoreGif = Inr (map fst out))"
proof -
  have h1: "list_all validFrame (gif_frames restoreGif)" by code_simp
  have h2: "0 < gif_width restoreGif" and h3: "0 < gif_height restoreGif" by code_simp+
  have h4: "(1::nat) \<le> 1" by simp
  have h5: "1 < length (gif_frames restoreGif)" by code_simp
  have b1: "overOpaque transparent transparent = transparent" by (simp add: overOpaque_def)
  have b2: "\<forall>s d. overOpaque d transparent = d \<longrightarrow> overOpaque (overOpaque s d) transparent = overOpaque s d"
    by (simp add: overOpaque_def)
  have d1: "gif_width restoreGif = dims_width (frame_dims (gif_frames restoreGif ! 0))"
    and d2: "gif_height restoreGif = dims_height (frame_dims (gif_frames restoreGif ! 0))" by code_simp+
  have e: "handleExport overOpaque (Some restoreGif) False (1, 1) None None
       = Some (Inr [(\<lparr>img_width = 2, img_height = 1, img_rows = [[greenPx, transparent]]\<rparr>, 50)])"
    by code_simp
  note T = export_slice_has_no_predecessor [OF h1 h2 h3 h4 h5, where bl = overOpaque and applied = None
      and completed = None]
  from T have A: "\<exists>call canvas cs.
           handleExport_call (Some restoreGif) False (1, 1) None None = Some call
         \<and> call_frames call = slice_list (gif_frames restoreGif) 1 (1 + 1)
         \<and> canvas = createCanvas (dims_width (frame_dims (gif_frames restoreGif ! 1)))
                      (dims_height (frame_dims (gif_frames restoreGif ! 1)))
         \<and> cs = spec_composite overOpaque None (slice_list (gif_frames restoreGif) 1 (1 + 1)) canvas None
         \<and> handleExport overOpaque (Some restoreGif) False (1, 1) None None
             = Some (Inr (emitted overOpaque (nat (call_cropX call)) (nat (call_cropY call))
                            (nat (call_cropWidth call)) (nat (call_cropHeight call)) cs
                            (slice_list (gif_frames restoreGif) 1 (1 + 1))))
         \<and> hd cs = spec_draw overOpaque (gif_frames restoreGif ! 1) canvas"
    by (rule conjunct1)
  from T b1 b2 d1 d2 have B: "\<exists>out. handleExport overOpaque (Some restoreGif) False
                (0, length (gif_frames restoreGif) - 1) None None = Some (Inr out)
            \<and> generateCompositedFrames overOpaque restoreGif = Inr (map fst out)"
    by blast
  show ?thesis
    by (intro conjI h1 h2 h3 h4 h5 A e b1 d1 d2 B)
qed

end
